theory Spec2Isabelle
  imports Main "HOL-Library.AList"
begin

section \<open>Data model: the tables of \<open>src/main.py\<close>\<close>

text \<open>
  The four SQLAlchemy models become records; a table is the list of its rows in rowid
  order. A \<open>DateTime\<close> column is an integer count of microseconds, a nullable column an
  \<open>option\<close>. The Python integers of the id columns are unbounded, hence \<open>int\<close>.
\<close>

type_synonym timestamp = int

record user =
  u_id :: int
  username :: string
  email :: string
  hashed_password :: string
  full_name :: "string option"
  avatar_url :: "string option"
  is_online :: bool
  last_seen :: timestamp
  u_created_at :: timestamp

record chat_room =
  r_id :: int
  r_name :: string
  slug :: string
  description :: "string option"
  created_by :: int
  r_created_at :: timestamp
  is_private :: bool

record room_member =
  rm_id :: int
  rm_room_id :: int
  rm_user_id :: int
  joined_at :: timestamp
  is_admin :: bool

record message =
  m_id :: int
  content :: string
  sender_id :: int
  m_room_id :: int
  message_type :: string
  file_path :: "string option"
  m_created_at :: timestamp
  is_edited :: bool
  edited_at :: "timestamp option"

record db =
  users :: "user list"
  chat_rooms :: "chat_room list"
  room_members :: "room_member list"
  messages :: "message list"

text \<open>\<open>Base.metadata.create_all\<close> on a fresh file: four empty tables.\<close>

definition empty_db :: db where
  "empty_db = \<lparr>users = [], chat_rooms = [], room_members = [], messages = []\<rparr>"

text \<open>
  What the source can raise is a value: a violated \<open>unique=True\<close> column makes
  \<open>db.commit()\<close> raise, \<open>socket.send\<close> raises on a closed connection, and the
  password library (\<open>pwd_context.hash\<close>, \<open>pwd_context.verify\<close>) raises on a password it
  does not accept: one with a NUL byte, or one that is too long.
\<close>

datatype error = IntegrityError | SendFailed | PasswordValueError | PasswordSizeError

text \<open>SQLite's \<open>INTEGER PRIMARY KEY\<close>: one more than the largest rowid, 1 in an empty table.\<close>

definition next_id :: "int list \<Rightarrow> int" where
  "next_id ids = (if ids = [] then 1 else Max (set ids) + 1)"

section \<open>Database utilities\<close>

text \<open>
  \<open>create_user\<close>: the password hash and the default avatar come from libraries
  (\<open>pwd_context.hash\<close>, \<open>avatar_manager.get_default_avatar\<close>), passed in as functions.
  The hash is computed first and may raise; the avatar lookup catches its own
  exceptions. \<open>full_name or username\<close> takes the username for \<open>None\<close> and for the empty
  string. One reading of the clock stands for the column defaults of \<open>last_seen\<close> and
  \<open>created_at\<close>. The commit raises when the username or the email is already stored.
\<close>

definition create_user ::
  "(string \<Rightarrow> error + string) \<Rightarrow> (string \<Rightarrow> string) \<Rightarrow> db \<Rightarrow> string \<Rightarrow> string \<Rightarrow> string
     \<Rightarrow> string option \<Rightarrow> timestamp \<Rightarrow> error + (user \<times> db)" where
  "create_user pwd_hash get_default_avatar d uname mail password fname now =
     (case pwd_hash password of
        Inl e \<Rightarrow> Inl e
      | Inr hashed \<Rightarrow>
          (let db_user = \<lparr>u_id = next_id (map u_id (users d)),
                          username = uname,
                          email = mail,
                          hashed_password = hashed,
                          full_name = (case fname of None \<Rightarrow> Some uname
                                       | Some f \<Rightarrow> if f = [] then Some uname else Some f),
                          avatar_url = Some (get_default_avatar uname),
                          is_online = False,
                          last_seen = now,
                          u_created_at = now\<rparr>
           in if uname \<in> set (map username (users d)) \<or> mail \<in> set (map email (users d))
              then Inl IntegrityError
              else Inr (db_user, d\<lparr>users := users d @ [db_user]\<rparr>)))"

text \<open>
  \<open>authenticate_user\<close>: \<open>.first()\<close> is the first row with the username.
  \<open>not user or not pwd_context.verify(...)\<close> short-circuits, so the library's check of
  the password against the stored hash runs only when a row was found; it answers
  \<open>True\<close> or \<open>False\<close> or raises, and nothing here catches what it raises.
\<close>

definition authenticate_user ::
  "(string \<Rightarrow> string \<Rightarrow> error + bool) \<Rightarrow> db \<Rightarrow> string \<Rightarrow> string \<Rightarrow> error + user option" where
  "authenticate_user pwd_verify d uname password =
     (case find (\<lambda>u. username u = uname) (users d) of
        None \<Rightarrow> Inr None
      | Some u \<Rightarrow>
          (case pwd_verify password (hashed_password u) of
             Inl e \<Rightarrow> Inl e
           | Inr verified \<Rightarrow> if \<not> verified then Inr None else Inr (Some u)))"

text \<open>
  \<open>get_or_create_room\<close>: \<open>slugify\<close> is the third-party normaliser, a parameter here.
  The insert is the only place that can raise (the slug column is unique).
\<close>

definition insert_chat_room ::
  "db \<Rightarrow> string \<Rightarrow> string \<Rightarrow> int \<Rightarrow> timestamp \<Rightarrow> error + (chat_room \<times> db)" where
  "insert_chat_room d room_name room_slug creator now =
     (let room = \<lparr>r_id = next_id (map r_id (chat_rooms d)),
                  r_name = room_name,
                  slug = room_slug,
                  description = None,
                  created_by = creator,
                  r_created_at = now,
                  is_private = False\<rparr>
      in if room_slug \<in> set (map slug (chat_rooms d))
         then Inl IntegrityError
         else Inr (room, d\<lparr>chat_rooms := chat_rooms d @ [room]\<rparr>))"

definition get_or_create_room ::
  "(string \<Rightarrow> string) \<Rightarrow> db \<Rightarrow> string \<Rightarrow> int \<Rightarrow> timestamp \<Rightarrow> error + (chat_room \<times> db)" where
  "get_or_create_room slugify d room_name creator now =
     (let room_slug = slugify room_name
      in case find (\<lambda>r. slug r = room_slug) (chat_rooms d) of
           Some room \<Rightarrow> Inr (room, d)
         | None \<Rightarrow> insert_chat_room d room_name room_slug creator now)"

text \<open>
  \<open>join_room\<close>: the table has no uniqueness constraint of its own, so the insert cannot
  raise; the guard is the query before it.
\<close>

definition join_room :: "db \<Rightarrow> int \<Rightarrow> int \<Rightarrow> timestamp \<Rightarrow> error + db" where
  "join_room d user_id room_id now =
     (case find (\<lambda>m. rm_user_id m = user_id \<and> rm_room_id m = room_id) (room_members d) of
        Some existing \<Rightarrow> Inr d
      | None \<Rightarrow>
          Inr (d\<lparr>room_members := room_members d @
                 [\<lparr>rm_id = next_id (map rm_id (room_members d)),
                   rm_room_id = room_id,
                   rm_user_id = user_id,
                   joined_at = now,
                   is_admin = False\<rparr>]\<rparr>))"

definition save_message ::
  "db \<Rightarrow> string \<Rightarrow> int \<Rightarrow> int \<Rightarrow> string \<Rightarrow> timestamp \<Rightarrow> error + (message \<times> db)" where
  "save_message d text sender room mtype now =
     (let msg = \<lparr>m_id = next_id (map m_id (messages d)),
                 content = text,
                 sender_id = sender,
                 m_room_id = room,
                 message_type = mtype,
                 file_path = None,
                 m_created_at = now,
                 is_edited = False,
                 edited_at = None\<rparr>
      in Inr (msg, d\<lparr>messages := messages d @ [msg]\<rparr>))"

text \<open>
  \<open>get_room_messages\<close>: the rows of the room, \<open>ORDER BY created_at DESC\<close>, then
  \<open>LIMIT\<close>. The order among rows of equal \<open>created_at\<close> is the database's choice; the
  model keeps them in rowid order (a stable sort). SQLite reads a negative \<open>LIMIT\<close> as
  no limit.
\<close>

definition order_by_created_at_desc :: "message list \<Rightarrow> message list" where
  "order_by_created_at_desc ms = sort_key (\<lambda>m. - m_created_at m) ms"

definition limit_rows :: "int \<Rightarrow> 'a list \<Rightarrow> 'a list" where
  "limit_rows n xs = (if n < 0 then xs else take (nat n) xs)"

definition get_room_messages :: "db \<Rightarrow> int \<Rightarrow> int \<Rightarrow> message list" where
  "get_room_messages d room_id limit =
     limit_rows limit
       (order_by_created_at_desc (filter (\<lambda>m. m_room_id m = room_id) (messages d)))"

text \<open>
  \<open>ChatApp.load_room_messages\<close>: the messages it renders, in rendering order
  (\<open>messages.reverse()\<close>, oldest first), with the default limit of 50.
\<close>

definition load_room_messages :: "db \<Rightarrow> int \<Rightarrow> message list" where
  "load_room_messages d room_id = rev (get_room_messages d room_id 50)"

section \<open>Connections and broadcasting\<close>

text \<open>
  \<open>user_sockets\<close> is a dict from username to a set of sockets: an association list in
  insertion order, each set a list in its iteration order. A socket is an opaque handle.
  Whether \<open>socket.send\<close> raises is the environment's choice: \<open>alive s\<close> says that a
  send to \<open>s\<close> succeeds. What a client receives is recorded as a list of deliveries.
\<close>

type_synonym socket = nat
type_synonym registry = "(string \<times> socket list) list"

datatype event =
    MessageData "(string \<times> string) list"
  | UserStatus string bool timestamp

type_synonym delivery = "socket \<times> event"

definition socket_send :: "(socket \<Rightarrow> bool) \<Rightarrow> socket \<Rightarrow> event \<Rightarrow> error + unit" where
  "socket_send alive s ev = (if alive s then Inr () else Inl SendFailed)"

text \<open>
  The inner loop of both broadcasts: iterate over a copy of the set, \<open>try\<close> the send,
  and on any exception \<open>discard\<close> the socket from the live set.
\<close>

fun send_to_sockets ::
  "(socket \<Rightarrow> bool) \<Rightarrow> event \<Rightarrow> socket list \<Rightarrow> socket list \<Rightarrow> socket list \<times> delivery list" where
  "send_to_sockets alive ev [] live = (live, [])"
| "send_to_sockets alive ev (s # ss) live =
     (case socket_send alive s ev of
        Inr _ \<Rightarrow> (case send_to_sockets alive ev ss live of
                   (live', sent) \<Rightarrow> (live', (s, ev) # sent))
      | Inl _ \<Rightarrow> send_to_sockets alive ev ss (removeAll s live))"

text \<open>The loop \<open>for username in usernames\<close> of \<open>broadcast_to_room\<close>.\<close>

fun broadcast_to_usernames ::
  "(socket \<Rightarrow> bool) \<Rightarrow> event \<Rightarrow> string list \<Rightarrow> registry \<Rightarrow> registry \<times> delivery list" where
  "broadcast_to_usernames alive ev [] reg = (reg, [])"
| "broadcast_to_usernames alive ev (u # us) reg =
     (case map_of reg u of
        None \<Rightarrow> broadcast_to_usernames alive ev us reg
      | Some socks \<Rightarrow>
          (case send_to_sockets alive ev socks socks of
             (live', sent) \<Rightarrow>
               (case broadcast_to_usernames alive ev us (AList.update u live' reg) of
                  (reg', sent') \<Rightarrow> (reg', sent @ sent'))))"

text \<open>
  The two queries of \<open>broadcast_to_room\<close>: the membership rows of the room, then the
  users whose id is among theirs (\<open>User.id.in_(user_ids)\<close>), in table order. Every
  exception of a send is caught inside the loop, so the call itself has no failing
  branch; \<open>finally: db.close()\<close> changes nothing that is modelled.
\<close>

definition room_usernames :: "db \<Rightarrow> int \<Rightarrow> string list" where
  "room_usernames d room_id =
     (let members = filter (\<lambda>m. rm_room_id m = room_id) (room_members d);
          user_ids = map rm_user_id members;
          us = filter (\<lambda>u. u_id u \<in> set user_ids) (users d)
      in map username us)"

definition broadcast_to_room ::
  "(socket \<Rightarrow> bool) \<Rightarrow> db \<Rightarrow> registry \<Rightarrow> int \<Rightarrow> event \<Rightarrow> error + (registry \<times> delivery list)" where
  "broadcast_to_room alive d reg room_id message_data =
     Inr (broadcast_to_usernames alive message_data (room_usernames d room_id) reg)"

text \<open>The loop \<open>for connected_username, sockets in user_sockets.items()\<close>.\<close>

fun broadcast_to_all ::
  "(socket \<Rightarrow> bool) \<Rightarrow> event \<Rightarrow> registry \<Rightarrow> registry \<times> delivery list" where
  "broadcast_to_all alive ev [] = ([], [])"
| "broadcast_to_all alive ev ((connected_username, sockets) # rest) =
     (case send_to_sockets alive ev sockets sockets of
        (live', sent) \<Rightarrow>
          (case broadcast_to_all alive ev rest of
             (rest', sent') \<Rightarrow> ((connected_username, live') # rest', sent @ sent')))"

text \<open>
  \<open>update_user_status\<close>: the ORM writes the row back by primary key; \<open>now\<close> is the
  value of \<open>datetime.utcnow()\<close>.
\<close>

definition update_user_status ::
  "(socket \<Rightarrow> bool) \<Rightarrow> db \<Rightarrow> registry \<Rightarrow> string \<Rightarrow> bool \<Rightarrow> timestamp
     \<Rightarrow> error + (db \<times> registry \<times> delivery list)" where
  "update_user_status alive d reg uname online now =
     (case find (\<lambda>u. username u = uname) (users d) of
        None \<Rightarrow> Inr (d, reg, [])
      | Some usr \<Rightarrow>
          (let d' = d\<lparr>users := map (\<lambda>u. if u_id u = u_id usr
                                          then u\<lparr>is_online := online, last_seen := now\<rparr>
                                          else u) (users d)\<rparr>;
               status_data = UserStatus uname online now
           in case broadcast_to_all alive status_data reg of
                (reg', sent) \<Rightarrow> Inr (d', reg', sent)))"

text \<open>The two handlers of \<open>chat_page\<close>.\<close>

definition on_connect ::
  "(socket \<Rightarrow> bool) \<Rightarrow> db \<Rightarrow> registry \<Rightarrow> string \<Rightarrow> timestamp
     \<Rightarrow> error + (db \<times> registry \<times> delivery list)" where
  "on_connect alive d reg uname now =
     update_user_status alive d
       (if map_of reg uname = None then AList.update uname [] reg else reg) uname True now"

text \<open>\<open>if username in user_sockets: user_sockets[username].clear()\<close>\<close>

definition clear_sockets :: "string \<Rightarrow> registry \<Rightarrow> registry" where
  "clear_sockets uname reg =
     (if map_of reg uname \<noteq> None then AList.update uname [] reg else reg)"

definition on_disconnect ::
  "(socket \<Rightarrow> bool) \<Rightarrow> db \<Rightarrow> registry \<Rightarrow> string \<Rightarrow> timestamp
     \<Rightarrow> error + (db \<times> registry \<times> delivery list)" where
  "on_disconnect alive d reg uname now =
     update_user_status alive d (clear_sockets uname reg) uname False now"

section \<open>Sequences of operations\<close>

text \<open>
  The state of the running application: the database, the global \<open>user_sockets\<close>, and
  the log of everything delivered so far. A step is one call of one of the functions
  above, at a clock value and with the set of sockets that accept a send; a call that
  raises leaves the state as it was (nothing was committed).
\<close>

record world =
  database :: db
  user_sockets :: registry
  delivered :: "delivery list"

record library =
  slugify_fn :: "string \<Rightarrow> string"
  pwd_hash_fn :: "string \<Rightarrow> error + string"
  default_avatar_fn :: "string \<Rightarrow> string"

datatype op =
    CreateUser string string string "string option"
  | GetOrCreateRoom string int
  | JoinRoom int int
  | SaveMessage string int int string
  | BroadcastToRoom int event
  | UpdateUserStatus string bool
  | Connect string
  | Disconnect string

definition init_world :: world where
  "init_world = \<lparr>database = empty_db, user_sockets = [], delivered = []\<rparr>"

definition commit_presence ::
  "world \<Rightarrow> error + (db \<times> registry \<times> delivery list) \<Rightarrow> world" where
  "commit_presence w res =
     (case res of
        Inl _ \<Rightarrow> w
      | Inr (d, reg, sent) \<Rightarrow>
          \<lparr>database = d, user_sockets = reg, delivered = delivered w @ sent\<rparr>)"

fun step :: "library \<Rightarrow> (socket \<Rightarrow> bool) \<Rightarrow> timestamp \<Rightarrow> op \<Rightarrow> world \<Rightarrow> world" where
  "step lib alive now (CreateUser uname mail password fname) w =
     (case create_user (pwd_hash_fn lib) (default_avatar_fn lib) (database w)
             uname mail password fname now of
        Inl _ \<Rightarrow> w
      | Inr (_, d) \<Rightarrow> w\<lparr>database := d\<rparr>)"
| "step lib alive now (GetOrCreateRoom room_name creator) w =
     (case get_or_create_room (slugify_fn lib) (database w) room_name creator now of
        Inl _ \<Rightarrow> w
      | Inr (_, d) \<Rightarrow> w\<lparr>database := d\<rparr>)"
| "step lib alive now (JoinRoom user_id room_id) w =
     (case join_room (database w) user_id room_id now of
        Inl _ \<Rightarrow> w
      | Inr d \<Rightarrow> w\<lparr>database := d\<rparr>)"
| "step lib alive now (SaveMessage text sender room mtype) w =
     (case save_message (database w) text sender room mtype now of
        Inl _ \<Rightarrow> w
      | Inr (_, d) \<Rightarrow> w\<lparr>database := d\<rparr>)"
| "step lib alive now (BroadcastToRoom room_id ev) w =
     (case broadcast_to_room alive (database w) (user_sockets w) room_id ev of
        Inl _ \<Rightarrow> w
      | Inr (reg, sent) \<Rightarrow> w\<lparr>user_sockets := reg, delivered := delivered w @ sent\<rparr>)"
| "step lib alive now (UpdateUserStatus uname online) w =
     commit_presence w
       (update_user_status alive (database w) (user_sockets w) uname online now)"
| "step lib alive now (Connect uname) w =
     commit_presence w (on_connect alive (database w) (user_sockets w) uname now)"
| "step lib alive now (Disconnect uname) w =
     commit_presence w (on_disconnect alive (database w) (user_sockets w) uname now)"

fun run :: "library \<Rightarrow> ((socket \<Rightarrow> bool) \<times> timestamp \<times> op) list \<Rightarrow> world \<Rightarrow> world" where
  "run lib [] w = w"
| "run lib ((alive, now, a) # rest) w = run lib rest (step lib alive now a w)"

section \<open>Observations used by the properties\<close>

definition membership_rows :: "db \<Rightarrow> int \<Rightarrow> int \<Rightarrow> room_member list" where
  "membership_rows d user_id room_id =
     filter (\<lambda>m. rm_user_id m = user_id \<and> rm_room_id m = room_id) (room_members d)"

definition rooms_with_slug :: "db \<Rightarrow> string \<Rightarrow> chat_room list" where
  "rooms_with_slug d s = filter (\<lambda>r. slug r = s) (chat_rooms d)"

text \<open>The offline status events for a user among a list of deliveries.\<close>

fun is_offline_event :: "string \<Rightarrow> delivery \<Rightarrow> bool" where
  "is_offline_event uname (s, UserStatus n online t) = (n = uname \<and> \<not> online)"
| "is_offline_event uname (s, MessageData kv) = False"

definition offline_events :: "string \<Rightarrow> socket \<Rightarrow> delivery list \<Rightarrow> delivery list" where
  "offline_events uname s sent = filter (\<lambda>x. fst x = s \<and> is_offline_event uname x) sent"

text \<open>The sockets of a registry, and the registry after every dead socket was discarded.\<close>

definition registered_sockets :: "registry \<Rightarrow> socket list" where
  "registered_sockets reg = concat (map snd reg)"

definition prune :: "(socket \<Rightarrow> bool) \<Rightarrow> registry \<Rightarrow> registry" where
  "prune alive reg = map (\<lambda>(n, socks). (n, filter alive socks)) reg"

text \<open>ASCII letters and digits, and the lowercase of a letter.\<close>

definition is_upper :: "char \<Rightarrow> bool" where
  "is_upper c = (65 \<le> (of_char c :: nat) \<and> (of_char c :: nat) \<le> 90)"

definition is_lower_alnum :: "char \<Rightarrow> bool" where
  "is_lower_alnum c =
     ((48 \<le> (of_char c :: nat) \<and> (of_char c :: nat) \<le> 57) \<or>
      (97 \<le> (of_char c :: nat) \<and> (of_char c :: nat) \<le> 122))"

definition is_alnum :: "char \<Rightarrow> bool" where
  "is_alnum c = (is_upper c \<or> is_lower_alnum c)"

definition to_lower :: "char \<Rightarrow> char" where
  "to_lower c = (if is_upper c then char_of ((of_char c :: nat) + 32) else c)"

text \<open>
  Modelled from the spec: the \<open>slugify\<close> that \<open>get_or_create_room\<close> imports from the
  package \<open>python_slugify\<close> is missing from the sources. The spec describes the slug as
  the name in lowercase with non-alphanumeric characters collapsed to separators, and
  gives \<open>team-chat\<close> for \<open>Team Chat\<close>: a letter or digit is kept in lowercase, and a
  maximal run of other characters becomes one \<open>-\<close>. The flag says that the previous
  character belonged to such a run.
\<close>

fun collapse_runs :: "bool \<Rightarrow> string \<Rightarrow> string" where
  "collapse_runs in_run [] = []"
| "collapse_runs in_run (c # cs) =
     (if is_alnum c then to_lower c # collapse_runs False cs
      else if in_run then collapse_runs True cs
      else CHR ''-'' # collapse_runs True cs)"

text \<open>
  Modelled from the spec: the normaliser itself, the missing \<open>slugify\<close>, as the spec
  words it (lowercase, non-alphanumeric collapsed to separators).
\<close>

definition slugify_spec :: "string \<Rightarrow> string" where
  "slugify_spec room_name = collapse_runs False room_name"

text \<open>No two separators side by side: every run was collapsed.\<close>

fun no_double_separator :: "string \<Rightarrow> bool" where
  "no_double_separator (a # b # cs) =
     (\<not> (a = CHR ''-'' \<and> b = CHR ''-'') \<and> no_double_separator (b # cs))"
| "no_double_separator cs = True"

text \<open>
  Who belongs to a room, and which sockets a user has: the two lookups a broadcast
  combines. A user without an entry in \<open>user_sockets\<close> has no sockets.
\<close>

definition is_room_member :: "db \<Rightarrow> int \<Rightarrow> user \<Rightarrow> bool" where
  "is_room_member d room_id usr =
     (u_id usr \<in> set (map rm_user_id
        (filter (\<lambda>m. rm_room_id m = room_id) (room_members d))))"

definition sockets_of :: "registry \<Rightarrow> string \<Rightarrow> socket list" where
  "sockets_of reg uname = (case map_of reg uname of None \<Rightarrow> [] | Some socks \<Rightarrow> socks)"

text \<open>The invariant of the membership table: no pair of user and room has two rows.\<close>

definition memberships_unique :: "db \<Rightarrow> bool" where
  "memberships_unique d = (\<forall>u r. length (membership_rows d u r) \<le> 1)"

section \<open>A small installation\<close>

text \<open>
  Two registered users, the room \<open>Team Chat\<close> that alice created and joined, and one
  open socket each. The password check of the example compares with a stored
  \<open>hash:\<close> prefix.
\<close>

definition example_alice :: user where
  "example_alice =
     \<lparr>u_id = 1, username = ''alice'', email = ''alice@example.org'',
      hashed_password = ''hash:wonderland'', full_name = Some ''Alice'',
      avatar_url = None, is_online = True, last_seen = 10, u_created_at = 10\<rparr>"

definition example_bob :: user where
  "example_bob =
     \<lparr>u_id = 2, username = ''bob'', email = ''bob@example.org'',
      hashed_password = ''hash:builder'', full_name = Some ''Bob'',
      avatar_url = None, is_online = True, last_seen = 20, u_created_at = 20\<rparr>"

definition example_room :: chat_room where
  "example_room =
     \<lparr>r_id = 1, r_name = ''Team Chat'', slug = ''team-chat'', description = None,
      created_by = 1, r_created_at = 30, is_private = False\<rparr>"

definition example_db :: db where
  "example_db =
     \<lparr>users = [example_alice, example_bob],
      chat_rooms = [example_room],
      room_members = [\<lparr>rm_id = 1, rm_room_id = 1, rm_user_id = 1, joined_at = 31,
                        is_admin = False\<rparr>],
      messages = []\<rparr>"

definition example_registry :: registry where
  "example_registry = [(''alice'', [3]), (''bob'', [7])]"

definition example_world :: world where
  "example_world =
     \<lparr>database = example_db, user_sockets = example_registry, delivered = []\<rparr>"

text \<open>
  The password library of the example. Like the bcrypt scheme of \<open>pwd_context\<close>, it
  refuses a password of more than 4096 characters and one that contains a NUL byte, by
  raising; the hash itself is a stand-in.
\<close>

definition example_reject :: "string \<Rightarrow> error option" where
  "example_reject password =
     (if 4096 < length password then Some PasswordSizeError
      else if CHR 0x00 \<in> set password then Some PasswordValueError
      else None)"

definition example_hash :: "string \<Rightarrow> error + string" where
  "example_hash password =
     (case example_reject password of
        Some e \<Rightarrow> Inl e
      | None \<Rightarrow> Inr (''hash:'' @ password))"

definition example_verify :: "string \<Rightarrow> string \<Rightarrow> error + bool" where
  "example_verify password stored =
     (case example_reject password of
        Some e \<Rightarrow> Inl e
      | None \<Rightarrow> Inr (stored = ''hash:'' @ password))"

text \<open>A password with a NUL byte in it.\<close>

definition example_nul_password :: string where
  "example_nul_password = [CHR ''p'', CHR 0x00, CHR ''w'']"

text \<open>A password of 4097 characters.\<close>

definition example_long_password :: string where
  "example_long_password = replicate 4097 (CHR ''a'')"

definition example_library :: library where
  "example_library =
     \<lparr>slugify_fn = slugify_spec, pwd_hash_fn = example_hash,
      default_avatar_fn = (\<lambda>u. ''/uploads/avatars/default_'' @ u @ ''.jpg'')\<rparr>"

text \<open>A session: alice registers, creates \<open>Team Chat\<close> and joins it twice.\<close>

definition example_ops :: "((socket \<Rightarrow> bool) \<times> timestamp \<times> op) list" where
  "example_ops =
     [((\<lambda>s. True), 1, CreateUser ''alice'' ''alice@example.org'' ''wonderland'' None),
      ((\<lambda>s. True), 2, GetOrCreateRoom ''Team Chat'' 1),
      ((\<lambda>s. True), 3, JoinRoom 1 1),
      ((\<lambda>s. True), 4, JoinRoom 1 1)]"

text \<open>Alice sends \<open>m1\<close> and then \<open>m2\<close> to \<open>Team Chat\<close>.\<close>

definition example_m1 :: message where
  "example_m1 =
     \<lparr>m_id = 1, content = ''m1'', sender_id = 1, m_room_id = 1, message_type = ''text'',
      file_path = None, m_created_at = 100, is_edited = False, edited_at = None\<rparr>"

definition example_m2 :: message where
  "example_m2 =
     \<lparr>m_id = 2, content = ''m2'', sender_id = 1, m_room_id = 1, message_type = ''text'',
      file_path = None, m_created_at = 101, is_edited = False, edited_at = None\<rparr>"

definition example_chat_db :: db where
  "example_chat_db = example_db\<lparr>messages := [example_m1, example_m2]\<rparr>"

text \<open>
  The same two messages when the clock does not advance between them, and when it is
  set back by one tick before the second.
\<close>

definition example_m2_same_tick :: message where
  "example_m2_same_tick = example_m2\<lparr>m_created_at := 100\<rparr>"

definition example_m2_clock_back :: message where
  "example_m2_clock_back = example_m2\<lparr>m_created_at := 99\<rparr>"

definition example_after_m1 :: db where
  "example_after_m1 = example_db\<lparr>messages := [example_m1]\<rparr>"

text \<open>The state of the application around a database, with nobody connected.\<close>

definition world_of :: "db \<Rightarrow> world" where
  "world_of d = \<lparr>database = d, user_sockets = [], delivered = []\<rparr>"

text \<open>
  A team of three members, carol without any connection, and dave, who is connected
  but not a member. Socket 7 is bob's first of two.
\<close>

definition example_team_db :: db where
  "example_team_db =
     \<lparr>users = [example_alice, example_bob,
               \<lparr>u_id = 3, username = ''carol'', email = ''carol@example.org'',
                hashed_password = ''hash:singer'', full_name = Some ''Carol'',
                avatar_url = None, is_online = False, last_seen = 21, u_created_at = 21\<rparr>,
               \<lparr>u_id = 4, username = ''dave'', email = ''dave@example.org'',
                hashed_password = ''hash:diver'', full_name = Some ''Dave'',
                avatar_url = None, is_online = True, last_seen = 22, u_created_at = 22\<rparr>],
      chat_rooms = [example_room],
      room_members =
        [\<lparr>rm_id = 1, rm_room_id = 1, rm_user_id = 1, joined_at = 31, is_admin = False\<rparr>,
         \<lparr>rm_id = 2, rm_room_id = 1, rm_user_id = 2, joined_at = 32, is_admin = False\<rparr>,
         \<lparr>rm_id = 3, rm_room_id = 1, rm_user_id = 3, joined_at = 33, is_admin = False\<rparr>],
      messages = []\<rparr>"

definition example_team_registry :: registry where
  "example_team_registry = [(''alice'', [3]), (''bob'', [7, 8]), (''dave'', [9])]"

definition example_event :: event where
  "example_event = MessageData [(''type'', ''new_message''), (''content'', ''hi bob'')]"

definition every_socket_alive :: "socket \<Rightarrow> bool" where
  "every_socket_alive s = True"

definition socket_7_closed :: "socket \<Rightarrow> bool" where
  "socket_7_closed s = (s \<noteq> 7)"

text \<open>Two disconnect signals for alice, with no connect between them.\<close>

definition example_two_disconnects :: "((socket \<Rightarrow> bool) \<times> timestamp \<times> op) list" where
  "example_two_disconnects =
     [(every_socket_alive, 50, Disconnect ''alice''),
      (every_socket_alive, 51, Disconnect ''alice'')]"

section \<open>Auxiliary facts\<close>

subsection \<open>Queries with \<open>.first()\<close>\<close>

lemma find_append_one:
  "find P (xs @ [x]) =
     (case find P xs of Some y \<Rightarrow> Some y | None \<Rightarrow> if P x then Some x else None)"
  by (induction xs) auto

lemma find_key_distinct:
  "distinct (map f xs) \<Longrightarrow> x \<in> set xs \<Longrightarrow> find (\<lambda>y. f y = f x) xs = Some x"
proof (induction xs)
  case Nil
  then show ?case by simp
next
  case (Cons a xs)
  show ?case
  proof (cases "a = x")
    case True
    then show ?thesis by simp
  next
    case False
    with Cons.prems have mem: "x \<in> set xs" by simp
    then have "f x \<in> f ` set xs" by (rule imageI)
    with Cons.prems(1) have "f a \<noteq> f x" by auto
    then show ?thesis using Cons.IH[OF _ mem] Cons.prems(1) by simp
  qed
qed

lemma find_Some_mem: "find P xs = Some x \<Longrightarrow> x \<in> set xs \<and> P x"
  by (induction xs) (auto split: if_splits)

lemma find_None_filter: "find P xs = None \<longleftrightarrow> filter P xs = []"
  by (induction xs) auto

subsection \<open>The normaliser\<close>

lemma to_lower_alnum:
  assumes "is_alnum c"
  shows "is_lower_alnum (to_lower c)"
proof (cases "is_upper c")
  case True
  then have "(of_char c :: nat) + 32 < 256" by (simp add: is_upper_def)
  then have "(of_char (char_of ((of_char c :: nat) + 32)) :: nat) = of_char c + 32"
    by (simp add: of_char_of)
  then show ?thesis using True by (simp add: is_upper_def is_lower_alnum_def to_lower_def)
next
  case False
  then show ?thesis using assms by (simp add: is_alnum_def to_lower_def)
qed

lemma dash_not_lower_alnum: "\<not> is_lower_alnum (CHR ''-'')"
  by (simp add: is_lower_alnum_def)

lemma to_lower_not_dash: "is_alnum c \<Longrightarrow> to_lower c \<noteq> CHR ''-''"
  using to_lower_alnum[of c] dash_not_lower_alnum by auto

lemma collapse_runs_chars:
  "c \<in> set (collapse_runs b cs) \<Longrightarrow> is_lower_alnum c \<or> c = CHR ''-''"
proof (induction b cs rule: collapse_runs.induct)
  case (1 in_run)
  then show ?case by simp
next
  case (2 in_run x cs)
  then show ?case
    using to_lower_alnum[of x] by (auto split: if_splits)
qed

lemma collapse_runs_in_run_head:
  "collapse_runs True cs = x # xs \<Longrightarrow> x \<noteq> CHR ''-''"
proof (induction cs)
  case Nil
  then show ?case by simp
next
  case (Cons c cs)
  show ?case
  proof (cases "is_alnum c")
    case True
    with Cons.prems have "x = to_lower c" by simp
    then show ?thesis using to_lower_not_dash[OF True] by simp
  next
    case False
    with Cons.prems have "collapse_runs True cs = x # xs" by simp
    then show ?thesis by (rule Cons.IH)
  qed
qed

lemma collapse_runs_no_double: "no_double_separator (collapse_runs b cs)"
proof (induction b cs rule: collapse_runs.induct)
  case (1 in_run)
  then show ?case by simp
next
  case (2 in_run c cs)
  show ?case
  proof (cases "is_alnum c")
    case True
    have nd: "to_lower c \<noteq> CHR ''-''" by (rule to_lower_not_dash[OF True])
    have ih: "no_double_separator (collapse_runs False cs)" using 2(1)[OF True] .
    show ?thesis
    proof (cases "collapse_runs False cs")
      case Nil
      then show ?thesis using True by simp
    next
      case (Cons y ys)
      then show ?thesis using True nd ih by simp
    qed
  next
    case False
    show ?thesis
    proof (cases in_run)
      case True
      then show ?thesis using False 2(2)[OF False True] by simp
    next
      case nr: False
      have ih: "no_double_separator (collapse_runs True cs)" using 2(3)[OF False nr] .
      show ?thesis
      proof (cases "collapse_runs True cs")
        case Nil
        then show ?thesis using False nr by simp
      next
        case (Cons y ys)
        then have "y \<noteq> CHR ''-''" by (rule collapse_runs_in_run_head)
        then show ?thesis using False nr ih Cons by simp
      qed
    qed
  qed
qed

section \<open>Rooms\<close>

subsection \<open>The two branches of \<open>get_or_create_room\<close>\<close>

lemma get_or_create_room_created:
  assumes none: "find (\<lambda>r. slug r = slugify room_name) (chat_rooms d) = None"
  shows "get_or_create_room slugify d room_name creator now =
           Inr (\<lparr>r_id = next_id (map r_id (chat_rooms d)), r_name = room_name,
                  slug = slugify room_name, description = None, created_by = creator,
                  r_created_at = now, is_private = False\<rparr>,
                d\<lparr>chat_rooms := chat_rooms d @
                   [\<lparr>r_id = next_id (map r_id (chat_rooms d)), r_name = room_name,
                     slug = slugify room_name, description = None, created_by = creator,
                     r_created_at = now, is_private = False\<rparr>]\<rparr>)"
proof -
  from none have "slugify room_name \<notin> set (map slug (chat_rooms d))"
    by (auto simp: find_None_iff)
  then show ?thesis
    using none by (simp add: get_or_create_room_def insert_chat_room_def Let_def)
qed

lemma get_or_create_room_found:
  "find (\<lambda>r. slug r = slugify room_name) (chat_rooms d) = Some room \<Longrightarrow>
   get_or_create_room slugify d room_name creator now = Inr (room, d)"
  by (simp add: get_or_create_room_def)

lemma get_or_create_room_slug:
  "\<exists>room d'. get_or_create_room slugify d room_name creator now = Inr (room, d') \<and>
             slug room = slugify room_name"
proof (cases "find (\<lambda>r. slug r = slugify room_name) (chat_rooms d)")
  case None
  show ?thesis
    using get_or_create_room_created[where slugify = slugify, OF None] by simp
next
  case (Some room)
  have "slug room = slugify room_name"
    using find_Some_mem[OF Some] by simp
  then show ?thesis
    using get_or_create_room_found[where slugify = slugify, OF Some] by simp
qed

text \<open>
  Claim C2. Two calls of \<open>get_or_create_room\<close>, one after the other, with names that
  normalise to the same slug both succeed and return a room with the same id; the
  second call leaves the database as the first left it, and the number of rooms with
  that slug is 1 if there was none before and unchanged otherwise. The hypothesis is
  symmetric in the two names, so the order of the calls does not matter.
\<close>

theorem get_or_create_room_same_slug_same_id:
  assumes "slugify name1 = slugify name2"
  shows "\<exists>room1 d1 room2 d2.
           get_or_create_room slugify d name1 creator1 now1 = Inr (room1, d1) \<and>
           get_or_create_room slugify d1 name2 creator2 now2 = Inr (room2, d2) \<and>
           r_id room2 = r_id room1 \<and> d2 = d1 \<and>
           length (rooms_with_slug d1 (slugify name1)) =
             (if rooms_with_slug d (slugify name1) = [] then 1
              else length (rooms_with_slug d (slugify name1)))"
proof (cases "find (\<lambda>r. slug r = slugify name1) (chat_rooms d)")
  case None
  define room where "room = \<lparr>r_id = next_id (map r_id (chat_rooms d)), r_name = name1,
                  slug = slugify name1, description = None, created_by = creator1,
                  r_created_at = now1, is_private = False\<rparr>"
  define d1 where "d1 = d\<lparr>chat_rooms := chat_rooms d @ [room]\<rparr>"
  have first: "get_or_create_room slugify d name1 creator1 now1 = Inr (room, d1)"
    unfolding room_def d1_def
    using None by (rule get_or_create_room_created[where slugify = slugify])
  have "find (\<lambda>r. slug r = slugify name2) (chat_rooms d1) = Some room"
    using None assms by (simp add: d1_def find_append_one room_def)
  then have second: "get_or_create_room slugify d1 name2 creator2 now2 = Inr (room, d1)"
    by (rule get_or_create_room_found[where slugify = slugify])
  have empty: "rooms_with_slug d (slugify name1) = []"
    using None by (simp add: rooms_with_slug_def find_None_filter)
  then have "length (rooms_with_slug d1 (slugify name1)) = 1"
    by (simp add: rooms_with_slug_def d1_def room_def)
  with first second empty show ?thesis by simp
next
  case (Some room)
  have first: "get_or_create_room slugify d name1 creator1 now1 = Inr (room, d)"
    using Some by (rule get_or_create_room_found[where slugify = slugify])
  have second: "get_or_create_room slugify d name2 creator2 now2 = Inr (room, d)"
    using Some assms by (simp add: get_or_create_room_found)
  have "rooms_with_slug d (slugify name1) \<noteq> []"
    using Some find_None_filter[of "\<lambda>r. slug r = slugify name1" "chat_rooms d"]
    by (simp add: rooms_with_slug_def)
  with first second show ?thesis by simp
qed

theorem get_or_create_room_same_slug_same_id_witness:
  "slugify_spec ''Team Chat'' = slugify_spec ''team   chat'' \<and>
   (\<exists>room1 d1 room2 d2.
      get_or_create_room slugify_spec empty_db ''Team Chat'' 1 5 = Inr (room1, d1) \<and>
      get_or_create_room slugify_spec d1 ''team   chat'' 2 6 = Inr (room2, d2) \<and>
      r_id room2 = r_id room1 \<and> d2 = d1 \<and>
      length (rooms_with_slug d1 (slugify_spec ''Team Chat'')) = 1)"
proof -
  have h: "slugify_spec ''Team Chat'' = slugify_spec ''team   chat''"
    by code_simp
  have e: "rooms_with_slug empty_db (slugify_spec ''Team Chat'') = []"
    by (simp add: rooms_with_slug_def empty_db_def)
  show ?thesis
    using h e get_or_create_room_same_slug_same_id[where slugify = slugify_spec
        and ?name1.0 = "''Team Chat''" and ?name2.0 = "''team   chat''" and d = empty_db
        and ?creator1.0 = 1 and ?now1.0 = 5 and ?creator2.0 = 2 and ?now2.0 = 6, OF h]
    by simp
qed

text \<open>
  Claim C8. For every normaliser and every room name, \<open>get_or_create_room\<close> succeeds
  and the slug of the room it returns (created or found) is the normalisation of the
  name. With the normaliser as the spec describes it, that slug consists of lowercase
  letters, digits and separators only, and no two separators are adjacent.
\<close>

theorem room_slug_is_normalized_name:
  "(\<exists>room d'. get_or_create_room slugify d room_name creator now = Inr (room, d') \<and>
              slug room = slugify room_name) \<and>
   (\<exists>room d'. get_or_create_room slugify_spec d room_name creator now = Inr (room, d') \<and>
              slug room = slugify_spec room_name \<and>
              (\<forall>c \<in> set (slug room). is_lower_alnum c \<or> c = CHR ''-'') \<and>
              no_double_separator (slug room))"
proof -
  obtain room d' where r:
    "get_or_create_room slugify_spec d room_name creator now = Inr (room, d')"
    "slug room = slugify_spec room_name"
    using get_or_create_room_slug[of slugify_spec d room_name creator now] by blast
  have chars: "\<forall>c \<in> set (slug room). is_lower_alnum c \<or> c = CHR ''-''"
    unfolding r(2) slugify_spec_def using collapse_runs_chars by blast
  have runs: "no_double_separator (slug room)"
    unfolding r(2) slugify_spec_def by (rule collapse_runs_no_double)
  show ?thesis
    using get_or_create_room_slug[of slugify d room_name creator now] r chars runs
    by blast
qed

theorem room_slug_is_normalized_name_witness:
  "\<exists>room d'. get_or_create_room slugify_spec empty_db ''Team Chat'' 1 0 = Inr (room, d') \<and>
             slug room = ''team-chat''"
proof -
  have h: "slugify_spec ''Team Chat'' = ''team-chat''"
    by code_simp
  show ?thesis
    using h room_slug_is_normalized_name[of slugify_spec empty_db "''Team Chat''" 1 0]
    by auto
qed

text \<open>
  Claim C10. When a room with the normalised slug is stored, \<open>get_or_create_room\<close>
  returns exactly that row, with every field as stored, and the database is unchanged:
  the name and the creator passed to the call are not written anywhere. The slug column
  is unique, which is the first hypothesis.
\<close>

theorem get_or_create_room_returns_stored_room:
  assumes "distinct (map slug (chat_rooms d))"
    and "room \<in> set (chat_rooms d)"
    and "slug room = slugify room_name"
  shows "get_or_create_room slugify d room_name creator now = Inr (room, d)"
proof -
  have "find (\<lambda>r. slug r = slug room) (chat_rooms d) = Some room"
    using assms(1,2) by (rule find_key_distinct)
  then have "find (\<lambda>r. slug r = slugify room_name) (chat_rooms d) = Some room"
    using assms(3) by simp
  then show ?thesis
    by (rule get_or_create_room_found[where slugify = slugify])
qed

theorem get_or_create_room_returns_stored_room_witness:
  "distinct (map slug (chat_rooms example_db)) \<and>
   example_room \<in> set (chat_rooms example_db) \<and>
   slug example_room = slugify_spec ''TEAM  CHAT'' \<and>
   get_or_create_room slugify_spec example_db ''TEAM  CHAT'' 2 99 =
     Inr (example_room, example_db) \<and>
   r_name example_room = ''Team Chat'' \<and> created_by example_room = 1"
proof -
  have h1: "distinct (map slug (chat_rooms example_db))"
    by (simp add: example_db_def)
  have h2: "example_room \<in> set (chat_rooms example_db)"
    by (simp add: example_db_def)
  have h3: "slug example_room = slugify_spec ''TEAM  CHAT''"
    by code_simp
  have h4: "r_name example_room = ''Team Chat'' \<and> created_by example_room = 1"
    by (simp add: example_room_def)
  show ?thesis
    using h1 h2 h3 h4
      get_or_create_room_returns_stored_room[where slugify = slugify_spec
        and room_name = "''TEAM  CHAT''" and creator = 2 and now = 99, OF h1 h2 h3]
    by simp
qed

section \<open>Authentication\<close>

subsection \<open>The two paths of \<open>authenticate_user\<close>\<close>

text \<open>
  An unknown username never reaches the password check. A stored username always does,
  and the outcome of the check, an exception included, is the outcome of the call.
\<close>

lemma authenticate_user_unknown:
  "uname \<notin> username ` set (users d) \<Longrightarrow>
   authenticate_user pwd_verify d uname password = Inr None"
proof -
  assume "uname \<notin> username ` set (users d)"
  then have "find (\<lambda>u. username u = uname) (users d) = None"
    by (auto simp: find_None_iff)
  then show ?thesis by (simp add: authenticate_user_def)
qed

lemma authenticate_user_stored:
  assumes "distinct (map username (users d))" and "u \<in> set (users d)"
  shows "authenticate_user pwd_verify d (username u) password =
           (case pwd_verify password (hashed_password u) of
              Inl e \<Rightarrow> Inl e
            | Inr verified \<Rightarrow> if verified then Inr (Some u) else Inr None)"
proof -
  have "find (\<lambda>y. username y = username u) (users d) = Some u"
    using assms by (rule find_key_distinct)
  then show ?thesis
    by (simp add: authenticate_user_def split: sum.splits)
qed

text \<open>
  Claim C7. The claim holds for every password the library accepts: the stored user for
  the right password, \<open>None\<close> for a wrong one and for an unknown username. It fails for
  a password the library refuses, one of 4097 characters or one with a NUL byte: with
  the username of a stored user the call raises, with an unknown username it returns
  \<open>None\<close>. The two outcomes differ, so a failed login tells whether the username
  exists.
\<close>

theorem authenticate_user_raises_for_stored_username:
  "authenticate_user example_verify example_db ''alice'' example_long_password =
     Inl PasswordSizeError \<and>
   authenticate_user example_verify example_db ''mallory'' example_long_password =
     Inr None \<and>
   authenticate_user example_verify example_db ''alice'' example_nul_password =
     Inl PasswordValueError \<and>
   authenticate_user example_verify example_db ''mallory'' example_nul_password =
     Inr None \<and>
   authenticate_user example_verify example_db ''alice'' ''builder'' = Inr None \<and>
   authenticate_user example_verify example_db ''alice'' ''wonderland'' =
     Inr (Some example_alice)"
proof -
  have r: "example_reject example_long_password = Some PasswordSizeError"
    "example_reject example_nul_password = Some PasswordValueError"
    "example_reject ''builder'' = None" "example_reject ''wonderland'' = None"
    by (simp_all add: example_reject_def example_nul_password_def example_long_password_def)
  have d: "distinct (map username (users example_db))"
    by (simp add: example_db_def example_alice_def example_bob_def)
  have m: "example_alice \<in> set (users example_db)"
    by (simp add: example_db_def)
  have n: "username example_alice = ''alice''" "hashed_password example_alice = ''hash:wonderland''"
    by (simp_all add: example_alice_def)
  have u: "''mallory'' \<notin> username ` set (users example_db)"
    by (simp add: example_db_def example_alice_def example_bob_def)
  have a: "authenticate_user example_verify example_db ''alice'' p =
           (case example_verify p ''hash:wonderland'' of
              Inl e \<Rightarrow> Inl e
            | Inr verified \<Rightarrow> if verified then Inr (Some example_alice) else Inr None)" for p
    using authenticate_user_stored[OF d m, of example_verify p] unfolding n .
  show ?thesis
    unfolding a authenticate_user_unknown[OF u]
    by (simp add: example_verify_def r)
qed

section \<open>Presence\<close>

text \<open>
  Claim C9. \<open>update_user_status\<close> for a username that no row of the users table carries
  returns normally, with the database and the socket registry as they were and nothing
  sent; as a step of the application it leaves the whole state unchanged.
\<close>

theorem update_user_status_unknown_user_noop:
  assumes "uname \<notin> username ` set (users (database w))"
  shows "update_user_status alive (database w) (user_sockets w) uname online now =
           Inr (database w, user_sockets w, []) \<and>
         step lib alive now (UpdateUserStatus uname online) w = w"
proof -
  have "find (\<lambda>u. username u = uname) (users (database w)) = None"
    using assms by (auto simp: find_None_iff)
  then have "update_user_status alive (database w) (user_sockets w) uname online now =
           Inr (database w, user_sockets w, [])"
    by (simp add: update_user_status_def)
  then show ?thesis
    by (simp add: commit_presence_def)
qed

theorem update_user_status_unknown_user_noop_witness:
  "''carol'' \<notin> username ` set (users (database example_world)) \<and>
   update_user_status (\<lambda>s. True) example_db example_registry ''carol'' False 40 =
     Inr (example_db, example_registry, []) \<and>
   step example_library (\<lambda>s. True) 40 (UpdateUserStatus ''carol'' False) example_world =
     example_world"
proof -
  have h: "''carol'' \<notin> username ` set (users (database example_world))"
    by (simp add: example_world_def example_db_def example_alice_def example_bob_def)
  have w: "database example_world = example_db" "user_sockets example_world = example_registry"
    by (simp_all add: example_world_def)
  show ?thesis
    using h update_user_status_unknown_user_noop[OF h, of "\<lambda>s. True" False 40 example_library]
    unfolding w by simp
qed

section \<open>Memberships\<close>

subsection \<open>What \<open>join_room\<close> does to the table, and which steps touch it\<close>

lemma join_room_result:
  "join_room d u r now =
     Inr (if membership_rows d u r = [] then
            d\<lparr>room_members := room_members d @
                 [\<lparr>rm_id = next_id (map rm_id (room_members d)), rm_room_id = r,
                   rm_user_id = u, joined_at = now, is_admin = False\<rparr>]\<rparr>
          else d)"
proof (cases "find (\<lambda>m. rm_user_id m = u \<and> rm_room_id m = r) (room_members d)")
  case None
  then have "membership_rows d u r = []"
    by (simp add: membership_rows_def find_None_filter)
  then show ?thesis using None by (simp add: join_room_def)
next
  case (Some m)
  then have "membership_rows d u r \<noteq> []"
    using find_None_filter[of "\<lambda>m. rm_user_id m = u \<and> rm_room_id m = r" "room_members d"]
    by (simp add: membership_rows_def)
  then show ?thesis using Some by (simp add: join_room_def)
qed

lemma join_room_rows:
  assumes "join_room d u r now = Inr d'"
  shows "length (membership_rows d' u' r') =
           (if u' = u \<and> r' = r \<and> membership_rows d u r = [] then 1
            else length (membership_rows d u' r'))"
proof (cases "membership_rows d u r = []")
  case True
  then have d': "d' = d\<lparr>room_members := room_members d @
                 [\<lparr>rm_id = next_id (map rm_id (room_members d)), rm_room_id = r,
                   rm_user_id = u, joined_at = now, is_admin = False\<rparr>]\<rparr>"
    using assms by (simp add: join_room_result)
  show ?thesis
  proof (cases "u' = u \<and> r' = r")
    case same: True
    then show ?thesis using True by (simp add: d' membership_rows_def)
  next
    case False
    then show ?thesis by (auto simp: d' membership_rows_def)
  qed
next
  case False
  then have "d' = d" using assms by (simp add: join_room_result)
  then show ?thesis using False by simp
qed

lemma join_room_unique:
  assumes "join_room d u r now = Inr d'" and "memberships_unique d"
  shows "memberships_unique d'"
  unfolding memberships_unique_def
proof (intro allI)
  fix u' r'
  have "length (membership_rows d u' r') \<le> 1"
    using assms(2) by (simp add: memberships_unique_def)
  then show "length (membership_rows d' u' r') \<le> 1"
    by (simp add: join_room_rows[OF assms(1)])
qed

lemma memberships_unique_cong:
  "room_members d' = room_members d \<Longrightarrow> memberships_unique d \<Longrightarrow> memberships_unique d'"
  by (simp add: memberships_unique_def membership_rows_def)

lemma create_user_members:
  "create_user h a d un em pw fn now = Inr (x, d') \<Longrightarrow> room_members d' = room_members d"
  by (auto simp: create_user_def Let_def split: if_splits sum.splits)

lemma get_or_create_room_members:
  "get_or_create_room sl d n c now = Inr (x, d') \<Longrightarrow> room_members d' = room_members d"
  by (auto simp: get_or_create_room_def insert_chat_room_def Let_def
      split: option.splits if_splits)

lemma save_message_members:
  "save_message d t s r mt now = Inr (x, d') \<Longrightarrow> room_members d' = room_members d"
  by (auto simp: save_message_def Let_def)

lemma update_user_status_members:
  "update_user_status alive d reg un online now = Inr (d', reg', sent) \<Longrightarrow>
   room_members d' = room_members d"
  by (auto simp: update_user_status_def Let_def split: option.splits prod.splits)

lemma step_unique:
  assumes "memberships_unique (database w)"
  shows "memberships_unique (database (step lib alive now a w))"
proof (cases a)
  case (CreateUser un em pw fn)
  then show ?thesis
    using assms
    by (auto split: sum.splits dest!: create_user_members elim: memberships_unique_cong)
next
  case (GetOrCreateRoom n c)
  then show ?thesis
    using assms
    by (auto split: sum.splits dest!: get_or_create_room_members elim: memberships_unique_cong)
next
  case (JoinRoom u r)
  then show ?thesis
    using assms by (auto split: sum.splits dest: join_room_unique)
next
  case (SaveMessage t s r mt)
  then show ?thesis
    using assms
    by (auto split: sum.splits dest!: save_message_members elim: memberships_unique_cong)
next
  case (BroadcastToRoom r ev)
  then show ?thesis
    using assms by (auto split: sum.splits)
next
  case (UpdateUserStatus un online)
  then show ?thesis
    using assms
    by (auto simp: commit_presence_def split: sum.splits
        dest!: update_user_status_members elim: memberships_unique_cong)
next
  case (Connect un)
  then show ?thesis
    using assms
    by (auto simp: commit_presence_def on_connect_def split: sum.splits
        dest!: update_user_status_members elim: memberships_unique_cong)
next
  case (Disconnect un)
  then show ?thesis
    using assms
    by (auto simp: commit_presence_def on_disconnect_def split: sum.splits
        dest!: update_user_status_members elim: memberships_unique_cong)
qed

lemma run_unique:
  "memberships_unique (database w) \<Longrightarrow> memberships_unique (database (run lib ops w))"
proof (induction ops arbitrary: w)
  case Nil
  then show ?case by simp
next
  case (Cons x ops)
  obtain alive now a where x: "x = (alive, now, a)" by (cases x) auto
  show ?case
    unfolding x run.simps
    by (rule Cons.IH) (rule step_unique[OF Cons.prems])
qed

lemma init_unique: "memberships_unique (database init_world)"
  by (simp add: memberships_unique_def membership_rows_def init_world_def empty_db_def)

text \<open>
  Claim C3. In every database that a sequence of operations produces from the empty
  one, no pair of user and room has more than one membership row. From such a database
  \<open>join_room\<close> succeeds, a second \<open>join_room\<close> for the same pair succeeds as well and
  changes nothing, and exactly one row for the pair is stored afterwards; when the pair
  is a member already, the first call changes nothing either.
\<close>

theorem join_room_keeps_one_membership_row:
  assumes "d = database (run lib ops init_world)"
  shows "(\<forall>u' r'. length (membership_rows d u' r') \<le> 1) \<and>
         (\<exists>d1. join_room d u r now1 = Inr d1 \<and> join_room d1 u r now2 = Inr d1 \<and>
               length (membership_rows d1 u r) = 1 \<and>
               (\<forall>u' r'. length (membership_rows d1 u' r') \<le> 1)) \<and>
         (membership_rows d u r \<noteq> [] \<longrightarrow> join_room d u r now1 = Inr d)"
proof -
  have inv: "memberships_unique d"
    unfolding assms by (rule run_unique[OF init_unique])
  then have all: "\<forall>u' r'. length (membership_rows d u' r') \<le> 1"
    by (simp add: memberships_unique_def)
  obtain d1 where d1: "join_room d u r now1 = Inr d1"
    by (simp add: join_room_result)
  have inv1: "memberships_unique d1"
    using d1 inv by (rule join_room_unique)
  then have all1: "\<forall>u' r'. length (membership_rows d1 u' r') \<le> 1"
    by (simp add: memberships_unique_def)
  have le: "length (membership_rows d u r) \<le> 1" using all by blast
  have one: "length (membership_rows d1 u r) = 1"
  proof (cases "membership_rows d u r = []")
    case True
    then show ?thesis by (simp add: join_room_rows[OF d1])
  next
    case False
    then have "length (membership_rows d u r) = 1"
      using le by (cases "membership_rows d u r") auto
    then show ?thesis using False by (simp add: join_room_rows[OF d1])
  qed
  then have "membership_rows d1 u r \<noteq> []" by auto
  then have again: "join_room d1 u r now2 = Inr d1"
    by (simp add: join_room_result)
  have noop: "membership_rows d u r \<noteq> [] \<longrightarrow> join_room d u r now1 = Inr d"
    by (simp add: join_room_result)
  show ?thesis using all d1 again one all1 noop by blast
qed

theorem join_room_keeps_one_membership_row_witness:
  "membership_rows (database (run example_library example_ops init_world)) 1 1 \<noteq> [] \<and>
   length (membership_rows (database (run example_library example_ops init_world)) 1 1) \<le> 1 \<and>
   join_room (database (run example_library example_ops init_world)) 1 1 5 =
     Inr (database (run example_library example_ops init_world))"
proof -
  have h: "membership_rows (database (run example_library example_ops init_world)) 1 1 \<noteq> []"
    by code_simp
  show ?thesis
    using h join_room_keeps_one_membership_row[OF refl, of example_library example_ops 1 1 5 5]
    by blast
qed

section \<open>Message history\<close>

subsection \<open>The query: sorted, a prefix, and of the room\<close>

lemma sorted_desc_order:
  "sorted (map (\<lambda>m. - m_created_at m) (order_by_created_at_desc ms))"
  by (simp add: order_by_created_at_desc_def)

lemma set_order_by: "set (order_by_created_at_desc ms) = set ms"
  by (simp add: order_by_created_at_desc_def)

lemma length_order_by: "length (order_by_created_at_desc ms) = length ms"
  by (simp add: order_by_created_at_desc_def)

lemma limit_rows_take: "\<exists>n. limit_rows k xs = take n xs"
proof (cases "k < 0")
  case True
  then have "limit_rows k xs = take (length xs) xs" by (simp add: limit_rows_def)
  then show ?thesis by blast
next
  case False
  then show ?thesis by (auto simp: limit_rows_def)
qed

lemma length_limit_rows: "0 \<le> k \<Longrightarrow> length (limit_rows k xs) \<le> nat k"
  by (simp add: limit_rows_def)

lemma sorted_take_key: "sorted (map f xs) \<Longrightarrow> sorted (map f (take n xs))"
  by (simp add: take_map[symmetric] sorted_wrt_take)

text \<open>In a list sorted by descending key, a strictly larger key stands earlier.\<close>

lemma sorted_desc_index:
  assumes "sorted (map (\<lambda>m. - m_created_at m) xs)"
    and "i < length xs" and "j < length xs"
    and "m_created_at (xs ! j) < m_created_at (xs ! i)"
  shows "i < j"
proof (rule ccontr)
  assume "\<not> i < j"
  then have "j \<le> i" by simp
  then have "map (\<lambda>m. - m_created_at m) xs ! j \<le> map (\<lambda>m. - m_created_at m) xs ! i"
    using assms(1,2) by (simp add: sorted_iff_nth_mono)
  then show False using assms(2,3,4) by simp
qed

lemma get_room_messages_sorted:
  "sorted (map (\<lambda>m. - m_created_at m) (get_room_messages d room limit))"
proof -
  obtain n where n: "get_room_messages d room limit =
      take n (order_by_created_at_desc (filter (\<lambda>m. m_room_id m = room) (messages d)))"
    unfolding get_room_messages_def using limit_rows_take by blast
  show ?thesis unfolding n by (rule sorted_take_key) (rule sorted_desc_order)
qed

lemma get_room_messages_set:
  "m \<in> set (get_room_messages d room limit) \<Longrightarrow> m \<in> set (messages d) \<and> m_room_id m = room"
proof -
  assume a: "m \<in> set (get_room_messages d room limit)"
  obtain n where n: "get_room_messages d room limit =
      take n (order_by_created_at_desc (filter (\<lambda>m. m_room_id m = room) (messages d)))"
    unfolding get_room_messages_def using limit_rows_take by blast
  from a have "m \<in> set (order_by_created_at_desc (filter (\<lambda>m. m_room_id m = room) (messages d)))"
    unfolding n by (rule in_set_takeD)
  then show ?thesis by (simp add: set_order_by)
qed

text \<open>The limit keeps the newest rows: what is cut off is not newer than what is kept.\<close>

lemma get_room_messages_keeps_newer:
  assumes m1: "m1 \<in> set (get_room_messages d room limit)"
    and m2: "m2 \<in> set (messages d)" "m_room_id m2 = room"
    and newer: "m_created_at m1 < m_created_at m2"
  shows "m2 \<in> set (get_room_messages d room limit)"
proof -
  define all where "all = order_by_created_at_desc (filter (\<lambda>m. m_room_id m = room) (messages d))"
  obtain n where n: "get_room_messages d room limit = take n all"
    unfolding get_room_messages_def all_def using limit_rows_take by blast
  have srt: "sorted (map (\<lambda>m. - m_created_at m) all)"
    unfolding all_def by (rule sorted_desc_order)
  from m1 obtain i where i: "i < length (take n all)" "take n all ! i = m1"
    unfolding n by (auto simp: in_set_conv_nth)
  then have i': "i < n" "i < length all" "all ! i = m1" by simp_all
  have "m2 \<in> set all" using m2 by (simp add: all_def set_order_by)
  then obtain j where j: "j < length all" "all ! j = m2"
    by (auto simp: in_set_conv_nth)
  have "j < i"
    using srt j(1) i'(2) newer unfolding i'(3)[symmetric] j(2)[symmetric]
    by (rule sorted_desc_index)
  then have "j < n" using i'(1) by simp
  then have "take n all ! j = m2" "j < length (take n all)" using j by simp_all
  then show ?thesis unfolding n by (metis nth_mem)
qed

subsection \<open>Appending, and what later operations keep\<close>

lemma save_message_appends:
  assumes "save_message d text sender room mtype now = Inr (m, d')"
  shows "messages d' = messages d @ [m]" and "m_created_at m = now" and "m_room_id m = room"
  using assms by (auto simp: save_message_def Let_def)

lemma create_user_messages:
  "create_user h a d un em pw fn now = Inr (x, d') \<Longrightarrow> messages d' = messages d"
  by (auto simp: create_user_def Let_def split: if_splits sum.splits)

lemma get_or_create_room_messages:
  "get_or_create_room sl d n c now = Inr (x, d') \<Longrightarrow> messages d' = messages d"
  by (auto simp: get_or_create_room_def insert_chat_room_def Let_def
      split: option.splits if_splits)

lemma join_room_messages:
  "join_room d u r now = Inr d' \<Longrightarrow> messages d' = messages d"
  by (auto simp: join_room_def split: option.splits)

lemma update_user_status_messages:
  "update_user_status alive d reg un online now = Inr (d', reg', sent) \<Longrightarrow>
   messages d' = messages d"
  by (auto simp: update_user_status_def Let_def split: option.splits prod.splits)

lemma step_keeps_messages:
  "set (messages (database w)) \<subseteq> set (messages (database (step lib alive now a w)))"
proof (cases a)
  case (CreateUser un em pw fn)
  then show ?thesis
    by (auto split: sum.splits dest!: create_user_messages)
next
  case (GetOrCreateRoom n c)
  then show ?thesis
    by (auto split: sum.splits dest!: get_or_create_room_messages)
next
  case (JoinRoom u r)
  then show ?thesis
    by (auto split: sum.splits dest!: join_room_messages)
next
  case (SaveMessage t s r mt)
  then show ?thesis
    by (auto split: sum.splits dest!: save_message_appends(1))
next
  case (BroadcastToRoom r ev)
  then show ?thesis by (auto split: sum.splits)
next
  case (UpdateUserStatus un online)
  then show ?thesis
    by (auto simp: commit_presence_def split: sum.splits dest!: update_user_status_messages)
next
  case (Connect un)
  then show ?thesis
    by (auto simp: commit_presence_def on_connect_def split: sum.splits
        dest!: update_user_status_messages)
next
  case (Disconnect un)
  then show ?thesis
    by (auto simp: commit_presence_def on_disconnect_def split: sum.splits
        dest!: update_user_status_messages)
qed

lemma run_keeps_messages:
  "m \<in> set (messages (database w)) \<Longrightarrow> m \<in> set (messages (database (run lib ops w)))"
proof (induction ops arbitrary: w)
  case Nil
  then show ?case by simp
next
  case (Cons x ops)
  obtain alive now a where x: "x = (alive, now, a)" by (cases x) auto
  have "m \<in> set (messages (database (step lib alive now a w)))"
    using Cons.prems step_keeps_messages[of w lib alive now a] by blast
  then show ?case unfolding x run.simps by (rule Cons.IH)
qed

lemma get_room_messages_uncut:
  assumes "limit < 0 \<or> int (length (filter (\<lambda>m. m_room_id m = room) (messages d))) \<le> limit"
  shows "set (get_room_messages d room limit) =
           set (filter (\<lambda>m. m_room_id m = room) (messages d))"
proof -
  let ?all = "order_by_created_at_desc (filter (\<lambda>m. m_room_id m = room) (messages d))"
  have "limit_rows limit ?all = ?all"
    using assms by (auto simp: limit_rows_def length_order_by)
  then show ?thesis by (simp add: get_room_messages_def set_order_by)
qed

text \<open>
  Claim C5, as stated: two messages appended in order appear in that order in the
  oldest-first view, which holds at most \<open>limit\<close> messages. The view is ordered by the
  clock value stamped at the append, not by the order of the appends. When the clock
  does not advance between the two appends, or is set back, \<open>load_room_messages\<close>
  shows \<open>m2\<close> before \<open>m1\<close>; with a limit of 1 only \<open>m2\<close> is returned; and a limit of
  \<open>-1\<close> returns both messages, more than the limit.
\<close>

theorem appended_messages_order_counterexample:
  "save_message example_db ''m1'' 1 1 ''text'' 100 = Inr (example_m1, example_after_m1) \<and>
   save_message example_after_m1 ''m2'' 1 1 ''text'' 100 =
     Inr (example_m2_same_tick,
          example_db\<lparr>messages := [example_m1, example_m2_same_tick]\<rparr>) \<and>
   load_room_messages (example_db\<lparr>messages := [example_m1, example_m2_same_tick]\<rparr>) 1 =
     [example_m2_same_tick, example_m1] \<and>
   save_message example_after_m1 ''m2'' 1 1 ''text'' 99 =
     Inr (example_m2_clock_back,
          example_db\<lparr>messages := [example_m1, example_m2_clock_back]\<rparr>) \<and>
   load_room_messages (example_db\<lparr>messages := [example_m1, example_m2_clock_back]\<rparr>) 1 =
     [example_m2_clock_back, example_m1] \<and>
   save_message example_after_m1 ''m2'' 1 1 ''text'' 101 = Inr (example_m2, example_chat_db) \<and>
   rev (get_room_messages example_chat_db 1 1) = [example_m2] \<and>
   rev (get_room_messages example_chat_db 1 (- 1)) = [example_m1, example_m2]"
proof -
  have s1: "save_message example_db ''m1'' 1 1 ''text'' 100 = Inr (example_m1, example_after_m1)"
    by (simp add: save_message_def example_db_def example_m1_def next_id_def Let_def
        example_after_m1_def)
  have s2: "save_message example_after_m1 ''m2'' 1 1 ''text'' 100 =
     Inr (example_m2_same_tick,
          example_db\<lparr>messages := [example_m1, example_m2_same_tick]\<rparr>)"
    by (simp add: save_message_def example_db_def example_m1_def example_m2_def
        example_m2_same_tick_def next_id_def Let_def example_after_m1_def)
  have v2: "load_room_messages (example_db\<lparr>messages := [example_m1, example_m2_same_tick]\<rparr>) 1 =
     [example_m2_same_tick, example_m1]"
    by code_simp
  have s3: "save_message example_after_m1 ''m2'' 1 1 ''text'' 99 =
     Inr (example_m2_clock_back,
          example_db\<lparr>messages := [example_m1, example_m2_clock_back]\<rparr>)"
    by (simp add: save_message_def example_db_def example_m1_def example_m2_def
        example_m2_clock_back_def next_id_def Let_def example_after_m1_def)
  have v3: "load_room_messages (example_db\<lparr>messages := [example_m1, example_m2_clock_back]\<rparr>) 1 =
     [example_m2_clock_back, example_m1]"
    by code_simp
  have s4: "save_message example_after_m1 ''m2'' 1 1 ''text'' 101 = Inr (example_m2, example_chat_db)"
    by (simp add: save_message_def example_db_def example_chat_db_def example_m1_def
        example_m2_def next_id_def Let_def example_after_m1_def)
  have v4: "rev (get_room_messages example_chat_db 1 1) = [example_m2]"
    by code_simp
  have v5: "rev (get_room_messages example_chat_db 1 (- 1)) = [example_m1, example_m2]"
    by code_simp
  show ?thesis
    by (intro conjI s1 s2 v2 s3 v3 s4 v4 v5)
qed

text \<open>
  Claim C5, amended. Let \<open>m1\<close> be appended to a room, then, after any operations,
  \<open>m2\<close> to the same room at a strictly later clock value, and let the room be viewed
  after any further operations. Wherever both stand in the oldest-first view, \<open>m1\<close>
  stands before \<open>m2\<close>; if \<open>m1\<close> is in the view then so is \<open>m2\<close>, after it; and \<open>m1\<close> is in
  the view when the limit is negative or not below the number of messages of the room.
  A non-negative limit bounds the length of the view, and every message of the view is
  a stored message of the queried room.
\<close>

theorem appended_messages_in_creation_order:
  assumes first: "save_message d text1 sender1 room type1 now1 = Inr (m1, d1)"
    and between: "database w1 = d1"
    and second: "save_message (database (run lib ops1 w1)) text2 sender2 room type2 now2 =
                   Inr (m2, d2)"
    and after: "database w2 = d2" "d3 = database (run lib ops2 w2)"
    and clock: "now1 < now2"
    and view: "view = rev (get_room_messages d3 room limit)"
  shows "(\<forall>i j. i < length view \<and> j < length view \<and> view ! i = m1 \<and> view ! j = m2
                 \<longrightarrow> i < j) \<and>
         (m1 \<in> set view \<longrightarrow>
            (\<exists>i j. i < j \<and> j < length view \<and> view ! i = m1 \<and> view ! j = m2)) \<and>
         (limit < 0 \<or> int (length (filter (\<lambda>m. m_room_id m = room) (messages d3))) \<le> limit
            \<longrightarrow> m1 \<in> set view) \<and>
         (0 \<le> limit \<longrightarrow> length view \<le> nat limit) \<and>
         (\<forall>m \<in> set view. m \<in> set (messages d3) \<and> m_room_id m = room)"
proof -
  have m1: "m_created_at m1 = now1" "m_room_id m1 = room"
    using save_message_appends(2,3)[OF first] by simp_all
  have m2: "m_created_at m2 = now2" "m_room_id m2 = room"
    using save_message_appends(2,3)[OF second] by simp_all
  have older: "m_created_at m1 < m_created_at m2"
    using clock m1(1) m2(1) by simp
  have "m1 \<in> set (messages (database w1))"
    using save_message_appends(1)[OF first] between by simp
  then have "m1 \<in> set (messages (database (run lib ops1 w1)))"
    by (rule run_keeps_messages)
  then have "m1 \<in> set (messages (database w2))"
    using save_message_appends(1)[OF second] after(1) by simp
  then have in1: "m1 \<in> set (messages d3)"
    unfolding after(2) by (rule run_keeps_messages)
  have "m2 \<in> set (messages (database w2))"
    using save_message_appends(1)[OF second] after(1) by simp
  then have in2: "m2 \<in> set (messages d3)"
    unfolding after(2) by (rule run_keeps_messages)
  define xs where "xs = get_room_messages d3 room limit"
  have len: "length view = length xs" by (simp add: view xs_def)
  have srt: "sorted (map (\<lambda>m. - m_created_at m) xs)"
    unfolding xs_def by (rule get_room_messages_sorted)
  have order: "i < j"
    if "i < length view" "j < length view" "view ! i = m1" "view ! j = m2" for i j
  proof -
    let ?i = "length xs - Suc i" and ?j = "length xs - Suc j"
    have vi: "m1 = xs ! ?i"
      using that(1,3) len by (simp add: view xs_def[symmetric] rev_nth)
    have vj: "m2 = xs ! ?j"
      using that(2,4) len by (simp add: view xs_def[symmetric] rev_nth)
    have "?j < ?i"
    proof (rule sorted_desc_index[OF srt])
      show "?j < length xs" using that(2) len by simp
      show "?i < length xs" using that(1) len by simp
      show "m_created_at (xs ! ?i) < m_created_at (xs ! ?j)" using older vi vj by simp
    qed
    then show ?thesis using that(1,2) len by simp
  qed
  have both: "\<exists>i j. i < j \<and> j < length view \<and> view ! i = m1 \<and> view ! j = m2"
    if "m1 \<in> set view"
  proof -
    have v1: "m1 \<in> set (get_room_messages d3 room limit)"
      using that by (simp add: view)
    have "m2 \<in> set (get_room_messages d3 room limit)"
      using v1 in2 m2(2) older by (rule get_room_messages_keeps_newer)
    then have "m2 \<in> set view" by (simp add: view)
    then obtain j where j: "j < length view" "view ! j = m2"
      by (auto simp: in_set_conv_nth)
    from that obtain i where i: "i < length view" "view ! i = m1"
      by (auto simp: in_set_conv_nth)
    have "i < j" by (rule order[OF i(1) j(1) i(2) j(2)])
    then have "i < j \<and> j < length view \<and> view ! i = m1 \<and> view ! j = m2"
      using i j by simp
    then show ?thesis by (intro exI)
  qed
  have uncut: "m1 \<in> set view"
    if "limit < 0 \<or> int (length (filter (\<lambda>m. m_room_id m = room) (messages d3))) \<le> limit"
  proof -
    have "set view = set (filter (\<lambda>m. m_room_id m = room) (messages d3))"
      using get_room_messages_uncut[OF that] by (simp add: view)
    then show ?thesis using in1 m1(2) by simp
  qed
  have bound: "0 \<le> limit \<longrightarrow> length view \<le> nat limit"
    by (simp add: view get_room_messages_def length_limit_rows)
  have rooms: "\<forall>m \<in> set view. m \<in> set (messages d3) \<and> m_room_id m = room"
    using get_room_messages_set[of _ d3 room limit] by (auto simp: view)
  show ?thesis
  proof (intro conjI allI impI)
    fix i j
    assume "i < length view \<and> j < length view \<and> view ! i = m1 \<and> view ! j = m2"
    then show "i < j" using order[of i j] by blast
  next
    assume "m1 \<in> set view"
    then show "\<exists>i j. i < j \<and> j < length view \<and> view ! i = m1 \<and> view ! j = m2"
      by (rule both)
  next
    assume "limit < 0 \<or>
        int (length (filter (\<lambda>m. m_room_id m = room) (messages d3))) \<le> limit"
    then show "m1 \<in> set view" by (rule uncut)
  next
    assume "0 \<le> limit"
    then show "length view \<le> nat limit" using bound by simp
  next
    show "\<forall>m \<in> set view. m \<in> set (messages d3) \<and> m_room_id m = room" by (rule rooms)
  qed
qed

theorem appended_messages_in_creation_order_witness:
  "save_message example_db ''m1'' 1 1 ''text'' 100 = Inr (example_m1, example_after_m1) \<and>
   save_message (database (run example_library [] (world_of example_after_m1)))
     ''m2'' 1 1 ''text'' 101 = Inr (example_m2, example_chat_db) \<and>
   (100 :: int) < 101 \<and>
   example_m1 \<in> set (rev (get_room_messages example_chat_db 1 50)) \<and>
   (\<exists>i j. i < j \<and> j < length (rev (get_room_messages example_chat_db 1 50)) \<and>
          rev (get_room_messages example_chat_db 1 50) ! i = example_m1 \<and>
          rev (get_room_messages example_chat_db 1 50) ! j = example_m2) \<and>
   load_room_messages example_chat_db 1 = [example_m1, example_m2]"
proof -
  have s1: "save_message example_db ''m1'' 1 1 ''text'' 100 = Inr (example_m1, example_after_m1)"
    by (simp add: save_message_def example_db_def example_m1_def next_id_def Let_def
        example_after_m1_def)
  have s2: "save_message (database (run example_library [] (world_of example_after_m1)))
     ''m2'' 1 1 ''text'' 101 = Inr (example_m2, example_chat_db)"
    by (simp add: save_message_def example_db_def example_chat_db_def example_m1_def
        example_m2_def next_id_def Let_def example_after_m1_def world_of_def)
  have w1: "database (world_of example_after_m1) = example_after_m1"
    by (simp add: world_of_def)
  have w2: "database (world_of example_chat_db) = example_chat_db"
    by (simp add: world_of_def)
  have d3: "example_chat_db = database (run example_library [] (world_of example_chat_db))"
    by (simp add: world_of_def)
  have c: "(100 :: int) < 101" by simp
  have fits: "(50 :: int) < 0 \<or>
      int (length (filter (\<lambda>m. m_room_id m = 1) (messages example_chat_db))) \<le> 50"
    by (simp add: example_chat_db_def)
  have l: "load_room_messages example_chat_db 1 = [example_m1, example_m2]"
    by code_simp
  note t = appended_messages_in_creation_order[OF s1 w1 s2 w2 d3 c refl, of 50]
  from t have t3: "(50 :: int) < 0 \<or>
      int (length (filter (\<lambda>m. m_room_id m = 1) (messages example_chat_db))) \<le> 50 \<longrightarrow>
      example_m1 \<in> set (rev (get_room_messages example_chat_db 1 50))"
    by (elim conjE)
  from t have t2: "example_m1 \<in> set (rev (get_room_messages example_chat_db 1 50)) \<longrightarrow>
      (\<exists>i j. i < j \<and> j < length (rev (get_room_messages example_chat_db 1 50)) \<and>
          rev (get_room_messages example_chat_db 1 50) ! i = example_m1 \<and>
          rev (get_room_messages example_chat_db 1 50) ! j = example_m2)"
    by (elim conjE)
  have a: "example_m1 \<in> set (rev (get_room_messages example_chat_db 1 50))"
    using t3 fits by (rule mp)
  have b: "\<exists>i j. i < j \<and> j < length (rev (get_room_messages example_chat_db 1 50)) \<and>
          rev (get_room_messages example_chat_db 1 50) ! i = example_m1 \<and>
          rev (get_room_messages example_chat_db 1 50) ! j = example_m2"
    using t2 a by (rule mp)
  show ?thesis
    by (intro conjI s1 s2 c a b l)
qed

section \<open>Broadcasting\<close>

subsection \<open>The loops in closed form\<close>

lemma send_to_sockets_result:
  "send_to_sockets alive ev ss live =
     (filter (\<lambda>x. x \<notin> set ss \<or> alive x) live, map (\<lambda>s. (s, ev)) (filter alive ss))"
proof (induction ss arbitrary: live)
  case Nil
  then show ?case by simp
next
  case (Cons s ss)
  show ?case
  proof (cases "alive s")
    case True
    have "filter (\<lambda>x. x \<notin> set ss \<or> alive x) live =
          filter (\<lambda>x. x \<notin> set (s # ss) \<or> alive x) live"
      using True by (intro filter_cong) auto
    then show ?thesis using True by (simp add: socket_send_def Cons.IH)
  next
    case False
    have "filter (\<lambda>x. x \<notin> set ss \<or> alive x) (removeAll s live) =
          filter (\<lambda>x. x \<notin> set (s # ss) \<or> alive x) live"
      unfolding removeAll_filter_not_eq filter_filter
      using False by (intro filter_cong) auto
    then show ?thesis using False by (simp add: socket_send_def Cons.IH)
  qed
qed

lemma send_to_own_sockets:
  "send_to_sockets alive ev ss ss = (filter alive ss, map (\<lambda>s. (s, ev)) (filter alive ss))"
proof -
  have "filter (\<lambda>x. x \<notin> set ss \<or> alive x) ss = filter alive ss"
    by (intro filter_cong) auto
  then show ?thesis by (simp add: send_to_sockets_result)
qed

lemma broadcast_to_all_result:
  "broadcast_to_all alive ev reg =
     (prune alive reg, map (\<lambda>s. (s, ev)) (filter alive (registered_sockets reg)))"
proof (induction reg)
  case Nil
  then show ?case by (simp add: prune_def registered_sockets_def)
next
  case (Cons entry reg)
  obtain n socks where entry: "entry = (n, socks)" by (cases entry)
  show ?case
    using Cons.IH
    by (simp add: entry send_to_own_sockets prune_def registered_sockets_def)
qed


lemma sockets_of_update_live:
  assumes "map_of reg u = Some socks"
  shows "filter alive (sockets_of (AList.update u (filter alive socks) reg) k) =
         filter alive (sockets_of reg k)"
  using assms by (simp add: sockets_of_def update_conv')

lemma broadcast_to_usernames_sent:
  "snd (broadcast_to_usernames alive ev us reg) =
     concat (map (\<lambda>u. map (\<lambda>s. (s, ev)) (filter alive (sockets_of reg u))) us)"
proof (induction us arbitrary: reg)
  case Nil
  then show ?case by simp
next
  case (Cons u us)
  show ?case
  proof (cases "map_of reg u")
    case None
    then show ?thesis by (simp add: Cons.IH sockets_of_def)
  next
    case (Some socks)
    let ?reg = "AList.update u (filter alive socks) reg"
    have rest: "snd (broadcast_to_usernames alive ev us ?reg) =
        concat (map (\<lambda>u. map (\<lambda>s. (s, ev)) (filter alive (sockets_of reg u))) us)"
      unfolding Cons.IH[of ?reg] sockets_of_update_live[OF Some] ..
    have here: "filter alive (sockets_of reg u) = filter alive socks"
      using Some by (simp add: sockets_of_def)
    show ?thesis
      using Some rest here
      by (simp add: send_to_own_sockets split_beta)
  qed
qed

lemma broadcast_to_usernames_registry:
  "map_of (fst (broadcast_to_usernames alive ev us reg)) k =
     (if k \<in> set us then map_option (filter alive) (map_of reg k) else map_of reg k)"
proof (induction us arbitrary: reg)
  case Nil
  then show ?case by simp
next
  case (Cons u us)
  show ?case
  proof (cases "map_of reg u")
    case None
    then have step: "fst (broadcast_to_usernames alive ev (u # us) reg) =
                     fst (broadcast_to_usernames alive ev us reg)"
      by simp
    show ?thesis
      unfolding step Cons.IH[of reg] using None by auto
  next
    case (Some socks)
    let ?reg = "AList.update u (filter alive socks) reg"
    have step: "fst (broadcast_to_usernames alive ev (u # us) reg) =
                fst (broadcast_to_usernames alive ev us ?reg)"
      using Some by (simp add: send_to_own_sockets split_beta)
    show ?thesis
      unfolding step Cons.IH[of ?reg]
      using Some by (cases "k = u") (simp_all add: update_conv')
  qed
qed

lemma broadcast_to_usernames_keys:
  "map fst (fst (broadcast_to_usernames alive ev us reg)) = map fst reg"
proof (induction us arbitrary: reg)
  case Nil
  then show ?case by simp
next
  case (Cons u us)
  show ?case
  proof (cases "map_of reg u")
    case None
    then show ?thesis by (simp add: Cons.IH)
  next
    case (Some socks)
    let ?reg = "AList.update u (filter alive socks) reg"
    have step: "fst (broadcast_to_usernames alive ev (u # us) reg) =
                fst (broadcast_to_usernames alive ev us ?reg)"
      using Some by (simp add: send_to_own_sockets split_beta)
    have "u \<in> set (map fst reg)"
      using Some by (metis map_of_eq_None_iff option.distinct(1) set_map)
    then have "map fst ?reg = map fst reg" by (simp add: update_keys)
    then show ?thesis unfolding step Cons.IH[of ?reg] .
  qed
qed

lemma room_usernames_iff:
  "u \<in> set (room_usernames d room) \<longleftrightarrow>
     (\<exists>usr \<in> set (users d). is_room_member d room usr \<and> username usr = u)"
  by (auto simp: room_usernames_def is_room_member_def Let_def)

text \<open>
  Claim C4. \<open>broadcast_to_room\<close> returns normally, and a socket receives something
  exactly when it is a socket that accepts the send and is registered for a user who is
  a member of the room; what it receives is the event. So every live connection of every
  member gets the event, a socket registered for non-members only gets nothing, and a
  member without an entry in \<open>user_sockets\<close>, or with an empty set, contributes nothing
  and stops nothing.
\<close>

theorem broadcast_to_room_reaches_members_only:
  "\<exists>reg' sent.
     broadcast_to_room alive d reg room ev = Inr (reg', sent) \<and>
     (\<forall>s e. (s, e) \<in> set sent \<longleftrightarrow>
        e = ev \<and> alive s \<and>
        (\<exists>usr \<in> set (users d). is_room_member d room usr \<and>
                                 s \<in> set (sockets_of reg (username usr))))"
proof -
  define res where "res = broadcast_to_usernames alive ev (room_usernames d room) reg"
  have call: "broadcast_to_room alive d reg room ev = Inr (fst res, snd res)"
    by (simp add: broadcast_to_room_def res_def)
  have sent: "snd res = concat (map (\<lambda>u. map (\<lambda>s. (s, ev)) (filter alive (sockets_of reg u)))
                                  (room_usernames d room))"
    unfolding res_def by (rule broadcast_to_usernames_sent)
  have "(s, e) \<in> set (snd res) \<longleftrightarrow>
        e = ev \<and> alive s \<and>
        (\<exists>usr \<in> set (users d). is_room_member d room usr \<and>
                                 s \<in> set (sockets_of reg (username usr)))" for s e
  proof -
    have "(s, e) \<in> set (snd res) \<longleftrightarrow>
          (\<exists>u \<in> set (room_usernames d room). e = ev \<and> alive s \<and> s \<in> set (sockets_of reg u))"
      unfolding sent by auto
    also have "\<dots> \<longleftrightarrow> e = ev \<and> alive s \<and>
        (\<exists>usr \<in> set (users d). is_room_member d room usr \<and>
                                 s \<in> set (sockets_of reg (username usr)))"
      by (auto simp: Bex_def room_usernames_iff)
    finally show ?thesis .
  qed
  then show ?thesis using call by blast
qed

theorem broadcast_to_room_reaches_members_only_witness:
  "\<exists>reg' sent.
     broadcast_to_room every_socket_alive example_team_db example_team_registry 1
       example_event = Inr (reg', sent) \<and>
     (3, example_event) \<in> set sent \<and> (7, example_event) \<in> set sent \<and>
     (8, example_event) \<in> set sent \<and> (9, example_event) \<notin> set sent"
proof -
  have m3: "\<exists>usr \<in> set (users example_team_db). is_room_member example_team_db 1 usr \<and>
             3 \<in> set (sockets_of example_team_registry (username usr))"
    by code_simp
  have m7: "\<exists>usr \<in> set (users example_team_db). is_room_member example_team_db 1 usr \<and>
             7 \<in> set (sockets_of example_team_registry (username usr))"
    by code_simp
  have m8: "\<exists>usr \<in> set (users example_team_db). is_room_member example_team_db 1 usr \<and>
             8 \<in> set (sockets_of example_team_registry (username usr))"
    by code_simp
  have n9: "\<not> (\<exists>usr \<in> set (users example_team_db). is_room_member example_team_db 1 usr \<and>
             9 \<in> set (sockets_of example_team_registry (username usr)))"
    by code_simp
  obtain reg' sent where call:
    "broadcast_to_room every_socket_alive example_team_db example_team_registry 1
       example_event = Inr (reg', sent)"
    and iff: "\<And>s e. (s, e) \<in> set sent \<longleftrightarrow>
        e = example_event \<and> every_socket_alive s \<and>
        (\<exists>usr \<in> set (users example_team_db). is_room_member example_team_db 1 usr \<and>
                                 s \<in> set (sockets_of example_team_registry (username usr)))"
    using broadcast_to_room_reaches_members_only[of every_socket_alive example_team_db
        example_team_registry 1 example_event]
    by blast
  have "(3, example_event) \<in> set sent"
    unfolding iff[of 3 example_event] using m3 by (simp add: every_socket_alive_def)
  moreover have "(7, example_event) \<in> set sent"
    unfolding iff[of 7 example_event] using m7 by (simp add: every_socket_alive_def)
  moreover have "(8, example_event) \<in> set sent"
    unfolding iff[of 8 example_event] using m8 by (simp add: every_socket_alive_def)
  moreover have "(9, example_event) \<notin> set sent"
    unfolding iff[of 9 example_event] using n9 by simp
  ultimately show ?thesis using call by blast
qed

text \<open>
  Claim C6. Whatever sends fail, \<open>broadcast_to_room\<close> returns normally. For each member
  with an entry in \<open>user_sockets\<close>, every socket of the entry whose send succeeds
  receives the event and stays registered, and every socket whose send fails is gone
  from the entry afterwards; the keys of the registry and the entries of everybody else
  are as before.
\<close>

theorem broadcast_to_room_survives_send_failures:
  "\<exists>reg' sent.
     broadcast_to_room alive d reg room ev = Inr (reg', sent) \<and>
     map fst reg' = map fst reg \<and>
     (\<forall>u. u \<notin> set (room_usernames d room) \<longrightarrow> map_of reg' u = map_of reg u) \<and>
     (\<forall>u \<in> set (room_usernames d room). \<forall>socks. map_of reg u = Some socks \<longrightarrow>
        map_of reg' u = Some (filter alive socks) \<and>
        (\<forall>s \<in> set socks.
           (alive s \<longrightarrow> (s, ev) \<in> set sent \<and> s \<in> set (sockets_of reg' u)) \<and>
           (\<not> alive s \<longrightarrow> (s, ev) \<notin> set sent \<and> s \<notin> set (sockets_of reg' u))))"
proof -
  define res where "res = broadcast_to_usernames alive ev (room_usernames d room) reg"
  have call: "broadcast_to_room alive d reg room ev = Inr (fst res, snd res)"
    by (simp add: broadcast_to_room_def res_def)
  have keys: "map fst (fst res) = map fst reg"
    unfolding res_def by (rule broadcast_to_usernames_keys)
  have others: "\<forall>u. u \<notin> set (room_usernames d room) \<longrightarrow> map_of (fst res) u = map_of reg u"
    unfolding res_def by (simp add: broadcast_to_usernames_registry)
  have sent: "snd res = concat (map (\<lambda>u. map (\<lambda>s. (s, ev)) (filter alive (sockets_of reg u)))
                                  (room_usernames d room))"
    unfolding res_def by (rule broadcast_to_usernames_sent)
  have dead: "(s, ev) \<notin> set (snd res)" if "\<not> alive s" for s
    unfolding sent using that by auto
  have members: "map_of (fst res) u = Some (filter alive socks) \<and>
        (\<forall>s \<in> set socks.
           (alive s \<longrightarrow> (s, ev) \<in> set (snd res) \<and> s \<in> set (sockets_of (fst res) u)) \<and>
           (\<not> alive s \<longrightarrow> (s, ev) \<notin> set (snd res) \<and> s \<notin> set (sockets_of (fst res) u)))"
    if u: "u \<in> set (room_usernames d room)" and socks: "map_of reg u = Some socks" for u socks
  proof -
    have after: "map_of (fst res) u = Some (filter alive socks)"
      unfolding res_def using u socks by (simp add: broadcast_to_usernames_registry)
    then have so: "sockets_of (fst res) u = filter alive socks"
      by (simp add: sockets_of_def)
    have before: "sockets_of reg u = socks" using socks by (simp add: sockets_of_def)
    have got: "(s, ev) \<in> set (snd res)" if "s \<in> set socks" "alive s" for s
      unfolding sent using u that before by auto
    show ?thesis using after so got dead by auto
  qed
  show ?thesis using call keys others members by blast
qed

theorem broadcast_to_room_survives_send_failures_witness:
  "\<exists>reg' sent.
     broadcast_to_room socket_7_closed example_team_db example_team_registry 1
       example_event = Inr (reg', sent) \<and>
     map_of reg' ''bob'' = Some [8] \<and>
     (8, example_event) \<in> set sent \<and> (7, example_event) \<notin> set sent"
proof -
  have u: "''bob'' \<in> set (room_usernames example_team_db 1)"
    by code_simp
  have r: "map_of example_team_registry ''bob'' = Some [7, 8]"
    by (simp add: example_team_registry_def)
  have f: "filter socket_7_closed [7, 8] = [8]" "socket_7_closed 8" "\<not> socket_7_closed 7"
    by (simp_all add: socket_7_closed_def)
  obtain reg' sent where res:
    "broadcast_to_room socket_7_closed example_team_db example_team_registry 1
       example_event = Inr (reg', sent)"
    "\<forall>u \<in> set (room_usernames example_team_db 1). \<forall>socks.
        map_of example_team_registry u = Some socks \<longrightarrow>
        map_of reg' u = Some (filter socket_7_closed socks) \<and>
        (\<forall>s \<in> set socks.
           (socket_7_closed s \<longrightarrow> (s, example_event) \<in> set sent \<and> s \<in> set (sockets_of reg' u)) \<and>
           (\<not> socket_7_closed s \<longrightarrow> (s, example_event) \<notin> set sent \<and> s \<notin> set (sockets_of reg' u)))"
    using broadcast_to_room_survives_send_failures[of socket_7_closed example_team_db
        example_team_registry 1 example_event]
    by blast
  have b: "map_of reg' ''bob'' = Some (filter socket_7_closed [7, 8]) \<and>
        (\<forall>s \<in> set [7, 8].
           (socket_7_closed s \<longrightarrow> (s, example_event) \<in> set sent \<and> s \<in> set (sockets_of reg' ''bob'')) \<and>
           (\<not> socket_7_closed s \<longrightarrow> (s, example_event) \<notin> set sent \<and> s \<notin> set (sockets_of reg' ''bob'')))"
    using res(2) u r by blast
  then have "map_of reg' ''bob'' = Some [8]" "(8, example_event) \<in> set sent"
    "(7, example_event) \<notin> set sent"
    using f by simp_all
  then show ?thesis using res(1) by blast
qed

section \<open>Presence events on disconnect\<close>

subsection \<open>A status update for a stored user\<close>

lemma update_user_status_known:
  assumes "find (\<lambda>u. username u = uname) (users d) = Some usr"
  shows "update_user_status alive d reg uname online now =
           Inr (d\<lparr>users := map (\<lambda>u. if u_id u = u_id usr
                                        then u\<lparr>is_online := online, last_seen := now\<rparr>
                                        else u) (users d)\<rparr>,
                prune alive reg,
                map (\<lambda>s. (s, UserStatus uname online now))
                  (filter alive (registered_sockets reg)))"
  using assms by (simp add: update_user_status_def broadcast_to_all_result)

lemma update_user_status_keeps_user:
  assumes "uname \<in> username ` set (users d)"
    and "update_user_status alive d reg uname online now = Inr (d', reg', sent)"
  shows "uname \<in> username ` set (users d')"
proof -
  from assms(1) obtain usr where usr: "find (\<lambda>u. username u = uname) (users d) = Some usr"
    by (cases "find (\<lambda>u. username u = uname) (users d)") (auto simp: find_None_iff)
  have "users d' = map (\<lambda>u. if u_id u = u_id usr
                                        then u\<lparr>is_online := online, last_seen := now\<rparr>
                                        else u) (users d)"
    using assms(2) unfolding update_user_status_known[OF usr] by auto
  then have "map username (users d') = map username (users d)"
    by (simp add: comp_def if_distrib[of username] cong: if_cong)
  then have "set (map username (users d')) = set (map username (users d))"
    by simp
  then show ?thesis using assms(1) by simp
qed

lemma clear_sockets_pruned:
  "clear_sockets uname (prune alive (clear_sockets uname reg)) =
     prune alive (clear_sockets uname reg)"
proof (cases "map_of reg uname")
  case None
  then have "map_of (prune alive reg) uname = None"
    by (simp add: prune_def map_of_map)
  then show ?thesis using None by (simp add: clear_sockets_def)
next
  case (Some socks)
  have "map_of (prune alive (AList.update uname [] reg)) uname = Some []"
    by (simp add: prune_def map_of_map update_conv')
  then show ?thesis
    using Some by (simp add: clear_sockets_def update_triv)
qed


lemma on_disconnect_known:
  assumes "find (\<lambda>u. username u = uname) (users d) = Some usr"
  shows "on_disconnect alive d reg uname now =
           Inr (d\<lparr>users := map (\<lambda>u. if u_id u = u_id usr
                                        then u\<lparr>is_online := False, last_seen := now\<rparr>
                                        else u) (users d)\<rparr>,
                prune alive (clear_sockets uname reg),
                map (\<lambda>s. (s, UserStatus uname False now))
                  (filter alive (registered_sockets (clear_sockets uname reg))))"
  unfolding on_disconnect_def by (rule update_user_status_known[OF assms])

text \<open>
  Claim C1, as stated: after a disconnect, a further disconnect of the same user with no
  connect in between emits no additional offline event. The handler does not do that.
  With alice and bob stored, bob holding socket 7, two disconnect signals for alice in a
  row deliver two offline events for alice to socket 7.
\<close>

theorem offline_event_per_disconnect_counterexample:
  "offline_events ''alice'' 7
     (delivered (run example_library example_two_disconnects example_world)) =
   [(7, UserStatus ''alice'' False 50), (7, UserStatus ''alice'' False 51)]"
  by code_simp

text \<open>
  Claim C1, amended. \<open>on_disconnect\<close> for a user of the users table empties that
  user's socket set and then sends one offline status event, stamped with the clock, to
  every socket still registered whose send succeeds; the sockets whose send fails are
  discarded. A further disconnect of the same user, with no connect in between, does
  the same again with the registry the first one left: the offline event is sent once
  per disconnect signal.
\<close>

theorem on_disconnect_broadcasts_offline_each_time:
  assumes "uname \<in> username ` set (users d)"
  shows "\<exists>d1 reg1 sent1 d2 reg2 sent2.
           on_disconnect alive1 d reg uname now1 = Inr (d1, reg1, sent1) \<and>
           reg1 = prune alive1 (clear_sockets uname reg) \<and>
           sent1 = map (\<lambda>s. (s, UserStatus uname False now1))
                     (filter alive1 (registered_sockets (clear_sockets uname reg))) \<and>
           on_disconnect alive2 d1 reg1 uname now2 = Inr (d2, reg2, sent2) \<and>
           reg2 = prune alive2 reg1 \<and>
           sent2 = map (\<lambda>s. (s, UserStatus uname False now2))
                     (filter alive2 (registered_sockets reg1))"
proof -
  from assms obtain usr where usr: "find (\<lambda>u. username u = uname) (users d) = Some usr"
    by (cases "find (\<lambda>u. username u = uname) (users d)") (auto simp: find_None_iff)
  define d1 where "d1 = d\<lparr>users := map (\<lambda>u. if u_id u = u_id usr
                                        then u\<lparr>is_online := False, last_seen := now1\<rparr>
                                        else u) (users d)\<rparr>"
  define reg1 where "reg1 = prune alive1 (clear_sockets uname reg)"
  have first: "on_disconnect alive1 d reg uname now1 =
      Inr (d1, reg1, map (\<lambda>s. (s, UserStatus uname False now1))
                     (filter alive1 (registered_sockets (clear_sockets uname reg))))"
    unfolding d1_def reg1_def by (rule on_disconnect_known[OF usr])
  have "uname \<in> username ` set (users d1)"
    using assms first unfolding on_disconnect_def by (rule update_user_status_keeps_user)
  then obtain usr1 where usr1: "find (\<lambda>u. username u = uname) (users d1) = Some usr1"
    by (cases "find (\<lambda>u. username u = uname) (users d1)") (auto simp: find_None_iff)
  have cleared: "clear_sockets uname reg1 = reg1"
    unfolding reg1_def by (rule clear_sockets_pruned)
  have second: "on_disconnect alive2 d1 reg1 uname now2 =
      Inr (d1\<lparr>users := map (\<lambda>u. if u_id u = u_id usr1
                                        then u\<lparr>is_online := False, last_seen := now2\<rparr>
                                        else u) (users d1)\<rparr>,
           prune alive2 reg1,
           map (\<lambda>s. (s, UserStatus uname False now2)) (filter alive2 (registered_sockets reg1)))"
    using on_disconnect_known[OF usr1, of alive2 reg1 now2] unfolding cleared .
  show ?thesis using first second reg1_def by blast
qed

theorem on_disconnect_broadcasts_offline_each_time_witness:
  "''alice'' \<in> username ` set (users example_db) \<and>
   (\<exists>d1 reg1 d2 reg2.
      on_disconnect every_socket_alive example_db example_registry ''alice'' 50 =
        Inr (d1, reg1, [(7, UserStatus ''alice'' False 50)]) \<and>
      on_disconnect every_socket_alive d1 reg1 ''alice'' 51 =
        Inr (d2, reg2, [(7, UserStatus ''alice'' False 51)]))"
proof -
  have h: "''alice'' \<in> username ` set (users example_db)"
    by (simp add: example_db_def example_alice_def)
  have c: "clear_sockets ''alice'' example_registry = [(''alice'', []), (''bob'', [7])]"
    by (simp add: clear_sockets_def example_registry_def)
  have s1: "filter every_socket_alive
              (registered_sockets (clear_sockets ''alice'' example_registry)) = [7]"
    unfolding c by (simp add: registered_sockets_def every_socket_alive_def)
  have s2: "filter every_socket_alive
              (registered_sockets (prune every_socket_alive
                 (clear_sockets ''alice'' example_registry))) = [7]"
    unfolding c by (simp add: registered_sockets_def prune_def every_socket_alive_def)
  obtain d1 reg1 sent1 d2 reg2 sent2 where r:
    "on_disconnect every_socket_alive example_db example_registry ''alice'' 50 =
       Inr (d1, reg1, sent1)"
    "reg1 = prune every_socket_alive (clear_sockets ''alice'' example_registry)"
    "sent1 = map (\<lambda>s. (s, UserStatus ''alice'' False 50))
               (filter every_socket_alive
                  (registered_sockets (clear_sockets ''alice'' example_registry)))"
    "on_disconnect every_socket_alive d1 reg1 ''alice'' 51 = Inr (d2, reg2, sent2)"
    "sent2 = map (\<lambda>s. (s, UserStatus ''alice'' False 51))
               (filter every_socket_alive (registered_sockets reg1))"
    using on_disconnect_broadcasts_offline_each_time[OF h, of every_socket_alive
        example_registry 50 every_socket_alive 51]
    by blast
  have e1: "sent1 = [(7, UserStatus ''alice'' False 50)]"
    unfolding r(3) s1 by simp
  have e2: "sent2 = [(7, UserStatus ''alice'' False 51)]"
    unfolding r(5) r(2) s2 by simp
  show ?thesis
    using h r(1) r(4) unfolding e1 e2 by blast
qed

end
